theory Spec2Isabelle
  imports Main "HOL-Library.AList" "HOL-Library.Sublist" "HOL-Library.Char_ord" "HOL-Library.List_Lexorder"
begin

section \<open>Data model of the tree builder (tree.ts)\<close>

datatype GitStatus = GitM | GitA | GitD | GitUntracked | GitR

text \<open>
  \<^verbatim>\<open>interface TreeNode { name; path; isDir; children?; gitStatus? }\<close>.
  The optional fields are options: \<open>None\<close> is the absent property.
\<close>

datatype TreeNode =
  TreeNode (name: string) (path: string) (isDir: bool)
           (children: "TreeNode list option") (gitStatus: "GitStatus option")

section \<open>FlattenIndex: \<open>flattenTree\<close> (components/FileTree.tsx)\<close>

record FlatEntry =
  node :: TreeNode
  depth :: int
  prefix :: string
  connector :: string
  parentIndex :: int
  firstChildIndex :: int

text \<open>
  The box-drawing strings of the source, written as their UTF-8 bytes:
  U+2514 U+2500 U+2500 space, U+251C U+2500 U+2500 space, and U+2502 followed by three spaces.
\<close>

definition connector_last :: string where
  "connector_last = [CHR 0xE2, CHR 0x94, CHR 0x94, CHR 0xE2, CHR 0x94, CHR 0x80,
                     CHR 0xE2, CHR 0x94, CHR 0x80, CHR '' '']"

definition connector_mid :: string where
  "connector_mid = [CHR 0xE2, CHR 0x94, CHR 0x9C, CHR 0xE2, CHR 0x94, CHR 0x80,
                    CHR 0xE2, CHR 0x94, CHR 0x80, CHR '' '']"

definition prefix_bar :: string where
  "prefix_bar = [CHR 0xE2, CHR 0x94, CHR 0x82, CHR '' '', CHR '' '', CHR '' '']"

text \<open>
  The inner \<open>walk\<close> of \<open>flattenTree\<close>. The array \<open>flat\<close> that the closure mutates is passed in
  and returned. The loop index \<open>i\<close> is only used for \<open>isLast\<close>, which holds exactly when no
  sibling remains. \<open>flat[myIndex].firstChildIndex = flat.length\<close> is the list update; it is in
  range because \<open>myIndex\<close> is the index of the entry pushed just before.
\<close>

function flat_walk ::
  "TreeNode list \<Rightarrow> int \<Rightarrow> string \<Rightarrow> int \<Rightarrow> FlatEntry list \<Rightarrow> FlatEntry list" where
  "flat_walk [] dep pre parentIdx flat = flat"
| "flat_walk (nd # rest) dep pre parentIdx flat =
     (let isLast = (rest = []);
          conn = (if isLast then connector_last else connector_mid);
          childPrefix = pre @ (if isLast then ''    '' else prefix_bar);
          myIndex = length flat;
          flat1 = flat @ [\<lparr>node = nd, depth = dep, prefix = pre, connector = conn,
                           parentIndex = parentIdx, firstChildIndex = -1\<rparr>];
          flat2 = (case children nd of
                     None \<Rightarrow> flat1
                   | Some cs \<Rightarrow>
                       if cs \<noteq> [] then
                         flat_walk cs (dep + 1) childPrefix (int myIndex)
                           (flat1[myIndex := (flat1 ! myIndex)\<lparr>firstChildIndex := int (length flat1)\<rparr>])
                       else flat1)
      in flat_walk rest dep pre parentIdx flat2)"
  by pat_completeness auto
termination
  by (relation "measure (\<lambda>(ns, _, _, _, _). size_list size ns)")
     (auto simp: children_def split: TreeNode.splits)

definition flattenTree :: "TreeNode list \<Rightarrow> FlatEntry list" where
  "flattenTree nodes = flat_walk nodes 0 '''' (-1) []"

text \<open>Helpers for stating the linkage property of a flattened sequence.\<close>

definition link_ok :: "FlatEntry list \<Rightarrow> nat \<Rightarrow> bool" where
  "link_ok fl i \<longleftrightarrow>
     (firstChildIndex (fl ! i) = -1 \<or>
        (0 \<le> firstChildIndex (fl ! i) \<and> nat (firstChildIndex (fl ! i)) < length fl \<and>
         parentIndex (fl ! nat (firstChildIndex (fl ! i))) = int i)) \<and>
     (parentIndex (fl ! i) = -1 \<or>
        (0 \<le> parentIndex (fl ! i) \<and> nat (parentIndex (fl ! i)) < length fl))"

definition walk_post :: "FlatEntry list \<Rightarrow> int \<Rightarrow> bool \<Rightarrow> FlatEntry list \<Rightarrow> bool" where
  "walk_post flat pidx nonempty res \<longleftrightarrow>
     (\<exists>new. res = flat @ new \<and>
        (nonempty \<longrightarrow> new \<noteq> [] \<and> parentIndex (hd new) = pidx) \<and>
        (\<forall>i. length flat \<le> i \<and> i < length res \<longrightarrow> link_ok res i))"

text \<open>One iteration of the loop body of the inner walk: the entry of one node and of its subtree.\<close>

definition flat_node ::
  "TreeNode \<Rightarrow> bool \<Rightarrow> int \<Rightarrow> string \<Rightarrow> int \<Rightarrow> FlatEntry list \<Rightarrow> FlatEntry list" where
  "flat_node nd isLast dep pre pidx flat =
     (let e = \<lparr>node = nd, depth = dep, prefix = pre,
                connector = (if isLast then connector_last else connector_mid),
                parentIndex = pidx, firstChildIndex = -1\<rparr>
      in case children nd of
           None \<Rightarrow> flat @ [e]
         | Some cs \<Rightarrow>
             if cs \<noteq> [] then
               flat_walk cs (dep + 1) (pre @ (if isLast then ''    '' else prefix_bar)) (int (length flat))
                 (flat @ [e\<lparr>firstChildIndex := int (length flat + 1)\<rparr>])
             else flat @ [e])"

section \<open>JavaScript string and array primitives used by the sources\<close>

text \<open>
  Strings are byte strings. \<open>s.split(c)\<close> with a one-character separator never returns the
  empty array: \<open>"".split("/")\<close> is \<open>[""]\<close>.
\<close>

fun split_on :: "char \<Rightarrow> string \<Rightarrow> string list" where
  "split_on c [] = [[]]"
| "split_on c (x # xs) =
     (if x = c then [] # split_on c xs
      else (case split_on c xs of w # ws \<Rightarrow> (x # w) # ws | [] \<Rightarrow> [[x]]))"

definition newline :: char where
  "newline = CHR 0x0A"

definition startsWith :: "string \<Rightarrow> string \<Rightarrow> bool" where
  "startsWith s p \<longleftrightarrow> take (length p) s = p"

definition endsWith :: "string \<Rightarrow> string \<Rightarrow> bool" where
  "endsWith s p \<longleftrightarrow> length p \<le> length s \<and> drop (length s - length p) s = p"

text \<open>
  \<open>String.prototype.trim\<close> strips white space and line terminators from both ends: the code
  points U+0009 to U+000D, U+0020, U+00A0, U+1680, U+2000 to U+200A, U+2028, U+2029, U+202F,
  U+205F, U+3000 and U+FEFF. On byte strings these are their UTF-8 encodings.
\<close>

definition ws_units :: "string list" where
  "ws_units =
     [[CHR 0x09], [CHR 0x0A], [CHR 0x0B], [CHR 0x0C], [CHR 0x0D], [CHR 0x20],
      [CHR 0xC2, CHR 0xA0], [CHR 0xE1, CHR 0x9A, CHR 0x80],
      [CHR 0xE2, CHR 0x80, CHR 0x80], [CHR 0xE2, CHR 0x80, CHR 0x81],
      [CHR 0xE2, CHR 0x80, CHR 0x82], [CHR 0xE2, CHR 0x80, CHR 0x83],
      [CHR 0xE2, CHR 0x80, CHR 0x84], [CHR 0xE2, CHR 0x80, CHR 0x85],
      [CHR 0xE2, CHR 0x80, CHR 0x86], [CHR 0xE2, CHR 0x80, CHR 0x87],
      [CHR 0xE2, CHR 0x80, CHR 0x88], [CHR 0xE2, CHR 0x80, CHR 0x89],
      [CHR 0xE2, CHR 0x80, CHR 0x8A], [CHR 0xE2, CHR 0x80, CHR 0xA8],
      [CHR 0xE2, CHR 0x80, CHR 0xA9], [CHR 0xE2, CHR 0x80, CHR 0xAF],
      [CHR 0xE2, CHR 0x81, CHR 0x9F], [CHR 0xE3, CHR 0x80, CHR 0x80],
      [CHR 0xEF, CHR 0xBB, CHR 0xBF]]"

text \<open>The number of bytes of the white-space character a string starts or ends with, if any.\<close>

definition ws_prefix :: "string \<Rightarrow> nat" where
  "ws_prefix s = (case find (startsWith s) ws_units of None \<Rightarrow> 0 | Some u \<Rightarrow> length u)"

definition ws_suffix :: "string \<Rightarrow> nat" where
  "ws_suffix s = (case find (endsWith s) ws_units of None \<Rightarrow> 0 | Some u \<Rightarrow> length u)"

function trimStart :: "string \<Rightarrow> string" where
  "trimStart s = (if ws_prefix s = 0 then s else trimStart (drop (ws_prefix s) s))"
  by pat_completeness auto
termination
proof (relation "measure length")
  show "wf (measure length)" by simp
next
  fix s :: string
  assume a: "ws_prefix s \<noteq> 0"
  have "s \<noteq> []"
  proof
    assume "s = []"
    then have "find (startsWith s) ws_units = None"
      by (simp add: find_None_iff startsWith_def ws_units_def)
    with a show False by (simp add: ws_prefix_def)
  qed
  with a show "(drop (ws_prefix s) s, s) \<in> measure length" by simp
qed

function trimEnd :: "string \<Rightarrow> string" where
  "trimEnd s = (if ws_suffix s = 0 then s else trimEnd (take (length s - ws_suffix s) s))"
  by pat_completeness auto
termination
proof (relation "measure length")
  show "wf (measure length)" by simp
next
  fix s :: string
  assume a: "ws_suffix s \<noteq> 0"
  have "s \<noteq> []"
  proof
    assume "s = []"
    then have "find (endsWith s) ws_units = None"
      by (simp add: find_None_iff endsWith_def ws_units_def)
    with a show False by (simp add: ws_suffix_def)
  qed
  with a show "(take (length s - ws_suffix s) s, s) \<in> measure length" by simp
qed

declare trimStart.simps [simp del] trimEnd.simps [simp del]

definition js_trim :: "string \<Rightarrow> string" where
  "js_trim s = trimEnd (trimStart s)"

text \<open>
  \<open>Array.prototype.sort(cmp)\<close> is a stable sort: an element goes before the first element it
  does not compare greater than. The comparator returns a number, negative for "before".
\<close>

fun insert_by :: "('a \<Rightarrow> 'a \<Rightarrow> int) \<Rightarrow> 'a \<Rightarrow> 'a list \<Rightarrow> 'a list" where
  "insert_by cmp x [] = [x]"
| "insert_by cmp x (y # ys) = (if cmp x y \<le> 0 then x # y # ys else y # insert_by cmp x ys)"

definition js_sort :: "('a \<Rightarrow> 'a \<Rightarrow> int) \<Rightarrow> 'a list \<Rightarrow> 'a list" where
  "js_sort cmp xs = foldr (insert_by cmp) xs []"

section \<open>The platform the tree builder runs on\<close>

text \<open>\<open>fs.Dirent\<close>, as returned by \<open>readdirSync(dir, { withFileTypes: true })\<close>.\<close>

datatype Dirent = Dirent (dname: string) (isDirectory: bool)

text \<open>
  What the builder reads from its environment: the file system (\<open>None\<close> is a thrown error),
  the output of \<open>git status --porcelain -u\<close> run in a directory (\<open>None\<close> when \<open>execSync\<close>
  throws), the collation \<open>a.localeCompare(b)\<close>, glob matching \<open>new Bun.Glob(p).match(s)\<close>,
  and \<open>path.join\<close> / \<open>path.relative\<close>.
\<close>

record platform =
  readdirSync :: "string \<Rightarrow> Dirent list option"
  existsSync :: "string \<Rightarrow> bool"
  readFileSync :: "string \<Rightarrow> string option"
  gitStatusOutput :: "string \<Rightarrow> string option"
  localeCompare :: "string \<Rightarrow> string \<Rightarrow> int"
  globMatch :: "string \<Rightarrow> string \<Rightarrow> bool"
  pathJoin :: "string \<Rightarrow> string \<Rightarrow> string"
  pathRelative :: "string \<Rightarrow> string \<Rightarrow> string"

section \<open>IgnoreRules (tree.ts)\<close>

definition DEFAULT_IGNORE :: "string list" where
  "DEFAULT_IGNORE = [''.git'', ''node_modules'', ''.DS_Store'', ''__pycache__'', ''.claude'']"

definition parseGitignore :: "'a platform_scheme \<Rightarrow> string \<Rightarrow> string list" where
  "parseGitignore P rootPath =
     (let gitignorePath = pathJoin P rootPath ''.gitignore'' in
      if \<not> existsSync P gitignorePath then []
      else case readFileSync P gitignorePath of
             None \<Rightarrow> []
           | Some content \<Rightarrow>
               filter (\<lambda>line. line \<noteq> [] \<and> \<not> startsWith line ''#'')
                 (map js_trim (split_on newline content)))"

text \<open>The \<open>for (const glob of gitignoreGlobs)\<close> loop of \<open>shouldIgnore\<close>; a glob is its pattern.\<close>

fun ignore_loop :: "'a platform_scheme \<Rightarrow> string \<Rightarrow> string \<Rightarrow> bool \<Rightarrow> string list \<Rightarrow> bool" where
  "ignore_loop P testPath nm isD [] = False"
| "ignore_loop P testPath nm isD (glob # globs) =
     (if globMatch P glob testPath \<or> globMatch P glob nm \<or> (isD \<and> globMatch P glob (nm @ ''/''))
      then True
      else ignore_loop P testPath nm isD globs)"

definition shouldIgnore ::
  "'a platform_scheme \<Rightarrow> string \<Rightarrow> string \<Rightarrow> bool \<Rightarrow> string list \<Rightarrow> string list \<Rightarrow> bool" where
  "shouldIgnore P nm relPath isD ignorePatterns gitignoreGlobs =
     (if nm \<in> set ignorePatterns then True
      else let testPath = (if isD then relPath @ ''/'' else relPath)
           in ignore_loop P testPath nm isD gitignoreGlobs)"

section \<open>TreeBuilder, all-files mode: \<open>walkTree\<close> (tree.ts)\<close>

text \<open>\<open>interface WalkOptions\<close>; an absent option is \<open>None\<close> and takes its default.\<close>

record WalkOptions =
  opt_maxDepth :: "int option"
  opt_maxEntries :: "int option"
  opt_ignorePatterns :: "string list option"

text \<open>What the closure \<open>walk\<close> captures from \<open>walkTree\<close>, apart from the counter.\<close>

record walk_ctx =
  rootPath :: string
  maxDepth :: int
  maxEntries :: int
  ignorePatterns :: "string list"
  gitignoreGlobs :: "string list"

text \<open>The comparator passed to \<open>entries.sort\<close>: directories first, then \<open>localeCompare\<close>.\<close>

definition dirent_cmp :: "'a platform_scheme \<Rightarrow> Dirent \<Rightarrow> Dirent \<Rightarrow> int" where
  "dirent_cmp P a b =
     (if isDirectory a \<noteq> isDirectory b then (if isDirectory a then -1 else 1)
      else localeCompare P (dname a) (dname b))"

text \<open>
  \<open>walk\<close> and its \<open>for (const entry of entries)\<close> loop. The shared counter \<open>entryCount\<close> is
  passed in and returned with the nodes; \<open>walk_loop\<close> carries the remaining entries and the
  array \<open>nodes\<close> built so far.
\<close>

function walk ::
    "'a platform_scheme \<Rightarrow> walk_ctx \<Rightarrow> string \<Rightarrow> int \<Rightarrow> int \<Rightarrow> TreeNode list \<times> int"
  and walk_loop ::
    "'a platform_scheme \<Rightarrow> walk_ctx \<Rightarrow> string \<Rightarrow> int \<Rightarrow> Dirent list \<Rightarrow> TreeNode list \<Rightarrow> int
       \<Rightarrow> TreeNode list \<times> int" where
  "walk P C dirPath dep entryCount =
     (if dep > maxDepth C \<or> entryCount \<ge> maxEntries C then ([], entryCount)
      else case readdirSync P dirPath of
             None \<Rightarrow> ([], entryCount)
           | Some entries \<Rightarrow> walk_loop P C dirPath dep (js_sort (dirent_cmp P) entries) [] entryCount)"
| "walk_loop P C dirPath dep [] nodes entryCount = (nodes, entryCount)"
| "walk_loop P C dirPath dep (entry # entries) nodes entryCount =
     (if entryCount \<ge> maxEntries C then (nodes, entryCount)
      else
        let fullPath = pathJoin P dirPath (dname entry);
            relPath = pathRelative P (rootPath C) fullPath;
            isD = isDirectory entry
        in if shouldIgnore P (dname entry) relPath isD (ignorePatterns C) (gitignoreGlobs C)
           then walk_loop P C dirPath dep entries nodes entryCount
           else
             if isD then
               (case walk P C fullPath (dep + 1) (entryCount + 1) of
                  (kids, entryCount') \<Rightarrow>
                    walk_loop P C dirPath dep entries
                      (nodes @ [TreeNode (dname entry) fullPath isD (Some kids) None]) entryCount')
             else
               walk_loop P C dirPath dep entries
                 (nodes @ [TreeNode (dname entry) fullPath isD None None]) (entryCount + 1))"
  by pat_completeness auto
termination
  by (relation "inv_image (less_than <*lex*> less_than)
        (\<lambda>x. case x of
           Inl (P, C, dirPath, dep, cnt) \<Rightarrow> (2 * nat (maxDepth C + 1 - dep), 0)
         | Inr (P, C, dirPath, dep, entries, nodes, cnt) \<Rightarrow>
             (if dep \<le> maxDepth C then 2 * nat (maxDepth C + 1 - dep) - 1 else 1, length entries))")
     (auto simp: nat_diff_distrib)

definition walkTree :: "'a platform_scheme \<Rightarrow> string \<Rightarrow> WalkOptions \<Rightarrow> TreeNode list" where
  "walkTree P root options =
     (let gitignorePatterns = parseGitignore P root;
          C = \<lparr>rootPath = root,
               maxDepth = (case opt_maxDepth options of None \<Rightarrow> 4 | Some d \<Rightarrow> d),
               maxEntries = (case opt_maxEntries options of None \<Rightarrow> 200 | Some n \<Rightarrow> n),
               ignorePatterns = (case opt_ignorePatterns options of None \<Rightarrow> DEFAULT_IGNORE | Some ps \<Rightarrow> ps),
               gitignoreGlobs = gitignorePatterns\<rparr>
      in fst (walk P C root 0 0))"

definition default_options :: WalkOptions where
  "default_options = \<lparr>opt_maxDepth = None, opt_maxEntries = None, opt_ignorePatterns = None\<rparr>"

text \<open>\<open>countNodes\<close> (components/FileTree.tsx): the number of nodes of a forest.\<close>

fun countNodes :: "TreeNode list \<Rightarrow> nat" where
  "countNodes [] = 0"
| "countNodes (TreeNode nm p d cs g # rest) =
     1 + (case cs of None \<Rightarrow> 0 | Some kids \<Rightarrow> countNodes kids) + countNodes rest"

text \<open>
  The number of levels of a forest: a node of the top-level array is one level below the
  walked root, its children two levels below, and so on.
\<close>

fun levels :: "TreeNode list \<Rightarrow> nat" where
  "levels [] = 0"
| "levels (TreeNode nm p d cs g # rest) =
     max (1 + (case cs of None \<Rightarrow> 0 | Some kids \<Rightarrow> levels kids)) (levels rest)"

section \<open>TreeBuilder, git-diff mode: \<open>getGitChanges\<close> and \<open>buildGitTree\<close> (tree.ts)\<close>

record GitFileEntry =
  relPath :: string
  status :: GitStatus

text \<open>The body of the \<open>map\<close> callback of \<open>getGitChanges\<close>: one porcelain line to one entry.\<close>

definition parse_status_line :: "string \<Rightarrow> GitFileEntry" where
  "parse_status_line line =
     (let xy = take 2 line;
          filePath0 = js_trim (drop 3 line);
          filePath = (if endsWith filePath0 ''/'' then butlast filePath0 else filePath0);
          st = (if CHR ''?'' \<in> set xy then GitUntracked
                else if CHR ''D'' \<in> set xy then GitD
                else if CHR ''R'' \<in> set xy then GitR
                else if CHR ''A'' \<in> set xy then GitA
                else GitM)
      in \<lparr>relPath = filePath, status = st\<rparr>)"

definition getGitChanges :: "'a platform_scheme \<Rightarrow> string \<Rightarrow> GitFileEntry list" where
  "getGitChanges P root =
     (case gitStatusOutput P root of
        None \<Rightarrow> []
      | Some output \<Rightarrow>
          map parse_status_line (filter (\<lambda>line. js_trim line \<noteq> []) (split_on newline output)))"

text \<open>
  \<open>interface DirBucket { files; subdirs: Map<string, DirBucket> }\<close>. A JavaScript \<open>Map\<close>
  iterates in insertion order, so \<open>subdirs\<close> is an association list with distinct keys:
  \<open>set\<close> on a new key appends, and mutating the bucket returned by \<open>get\<close> replaces the value
  in place.
\<close>

record BucketFile =
  bf_name :: string
  bf_relPath :: string
  bf_status :: GitStatus

datatype DirBucket = DirBucket (files: "BucketFile list") (subdirs: "(string \<times> DirBucket) list")

definition empty_bucket :: DirBucket where
  "empty_bucket = DirBucket [] []"

text \<open>
  The inner \<open>for (let i = 0; i < parts.length - 1; i++)\<close> loop followed by
  \<open>bucket.files.push\<close>: descend through the directory segments, creating missing buckets,
  and push the file at the end.
\<close>

fun bucket_insert :: "string list \<Rightarrow> BucketFile \<Rightarrow> DirBucket \<Rightarrow> DirBucket" where
  "bucket_insert [] f (DirBucket fs sd) = DirBucket (fs @ [f]) sd"
| "bucket_insert (seg # segs) f (DirBucket fs sd) =
     DirBucket fs
       (AList.update seg
          (bucket_insert segs f (case map_of sd seg of None \<Rightarrow> empty_bucket | Some sub \<Rightarrow> sub))
          sd)"

text \<open>The \<open>for (const { relPath, status } of changes)\<close> loop of \<open>buildGitTree\<close>.\<close>

fun fill_buckets :: "GitFileEntry list \<Rightarrow> DirBucket \<Rightarrow> DirBucket" where
  "fill_buckets [] root = root"
| "fill_buckets (ch # changes) root =
     (let topDir = hd (split_on (CHR ''/'') (relPath ch)) in
      if topDir \<in> set DEFAULT_IGNORE then fill_buckets changes root
      else
        let parts = split_on (CHR ''/'') (relPath ch)
        in fill_buckets changes
             (bucket_insert (butlast parts)
                \<lparr>bf_name = last parts, bf_relPath = relPath ch, bf_status = status ch\<rparr> root))"

text \<open>The comparator passed to \<open>nodes.sort\<close> in \<open>bucketToNodes\<close>.\<close>

definition node_cmp :: "'a platform_scheme \<Rightarrow> TreeNode \<Rightarrow> TreeNode \<Rightarrow> int" where
  "node_cmp P a b =
     (if isDir a \<noteq> isDir b then (if isDir a then -1 else 1)
      else localeCompare P (name a) (name b))"

function bucketToNodes :: "'a platform_scheme \<Rightarrow> string \<Rightarrow> DirBucket \<Rightarrow> string \<Rightarrow> TreeNode list" where
  "bucketToNodes P root (DirBucket fs sd) parentPath =
     js_sort (node_cmp P)
       (map (\<lambda>(dirName, subBucket).
               let dirFullPath = (if parentPath \<noteq> [] then parentPath @ ''/'' @ dirName else dirName)
               in TreeNode dirName (pathJoin P root dirFullPath) True
                    (Some (bucketToNodes P root subBucket dirFullPath)) None) sd
        @ map (\<lambda>f. TreeNode (bf_name f) (pathJoin P root (bf_relPath f)) False None
                     (Some (bf_status f))) fs)"
  by pat_completeness auto
termination
proof (relation "measure (\<lambda>(P, root, b, parentPath). size b)")
  show "wf (measure (\<lambda>(P :: 'a platform_scheme, root :: string, b :: DirBucket, parentPath :: string). size b))"
    by simp
next
  fix P :: "'a platform_scheme" and root :: string and fs
    and sd :: "(string \<times> DirBucket) list" and parentPath x xa
    and y :: DirBucket and xb :: string
  assume "x \<in> set sd" "(xa, y) = x"
  then have "(xa, y) \<in> set sd" by simp
  then have "size y < Suc (size_list (size_prod (\<lambda>x. 0) size) sd)"
    by (induction sd) auto
  then show "((P, root, y, xb), P, root, DirBucket fs sd, parentPath)
               \<in> measure (\<lambda>(P, root, b, parentPath). size b)"
    by (auto simp: less_Suc_eq_le)
qed

definition buildGitTree :: "'a platform_scheme \<Rightarrow> string \<Rightarrow> TreeNode list" where
  "buildGitTree P root =
     (let changes = getGitChanges P root in
      if length changes = 0 then []
      else bucketToNodes P root (fill_buckets changes empty_bucket) '''')"

section \<open>Sibling groups and orderings\<close>

text \<open>The child arrays below a forest; with the forest itself, all its sibling groups.\<close>

fun subgroups :: "TreeNode list \<Rightarrow> TreeNode list list" where
  "subgroups [] = []"
| "subgroups (TreeNode nm p d cs g # rest) =
     (case cs of None \<Rightarrow> [] | Some kids \<Rightarrow> kids # subgroups kids) @ subgroups rest"

definition sibling_groups :: "TreeNode list \<Rightarrow> TreeNode list list" where
  "sibling_groups forest = forest # subgroups forest"

text \<open>
  \<open>ordered_by cmp a b\<close>: \<open>a\<close> may stand before \<open>b\<close> in a sibling group, that is, \<open>a\<close> is a
  directory and \<open>b\<close> a file, or they are of one kind and \<open>cmp\<close> does not put \<open>b\<close>'s name first.
\<close>

definition ordered_by :: "(string \<Rightarrow> string \<Rightarrow> int) \<Rightarrow> TreeNode \<Rightarrow> TreeNode \<Rightarrow> bool" where
  "ordered_by cmp a b \<longleftrightarrow>
     (isDir a \<and> \<not> isDir b) \<or> (isDir a = isDir b \<and> cmp (name a) (name b) \<le> 0)"

text \<open>
  A comparator that \<open>Array.prototype.sort\<close> can sort by: of two elements one does not compare
  greater than the other, and "not greater" is transitive.
\<close>

definition consistent_cmp :: "('a \<Rightarrow> 'a \<Rightarrow> int) \<Rightarrow> bool" where
  "consistent_cmp cmp \<longleftrightarrow>
     (\<forall>a b. cmp a b \<le> 0 \<or> cmp b a \<le> 0) \<and>
     (\<forall>a b c. cmp a b \<le> 0 \<and> cmp b c \<le> 0 \<longrightarrow> cmp a c \<le> 0)"

text \<open>Case-sensitive lexicographic comparison of the bytes of two names.\<close>

definition codepoint_cmp :: "string \<Rightarrow> string \<Rightarrow> int" where
  "codepoint_cmp a b = (if a < b then -1 else if a = b then 0 else 1)"

text \<open>
  An alphabetical collation, as \<open>localeCompare\<close> gives on ASCII letters: names are compared
  with upper-case letters folded to lower case, and only names equal up to case are
  separated by case, lower case first.
\<close>

definition fold_case :: "char \<Rightarrow> char" where
  "fold_case c =
     (if CHR ''A'' \<le> c \<and> c \<le> CHR ''Z'' then char_of (of_char c + (32 :: nat)) else c)"

definition is_upper :: "char \<Rightarrow> bool" where
  "is_upper c \<longleftrightarrow> CHR ''A'' \<le> c \<and> c \<le> CHR ''Z''"

definition alphabetical_cmp :: "string \<Rightarrow> string \<Rightarrow> int" where
  "alphabetical_cmp a b =
     (let ka = map fold_case a; kb = map fold_case b in
      if ka < kb then -1 else if kb < ka then 1
      else if map is_upper a < map is_upper b then -1
      else if map is_upper a = map is_upper b then 0 else 1)"

text \<open>The node \<open>walk\<close> pushes for a plain file entry of the directory \<open>dirPath\<close>.\<close>

definition file_node :: "'a platform_scheme \<Rightarrow> string \<Rightarrow> Dirent \<Rightarrow> TreeNode" where
  "file_node P dirPath e = TreeNode (dname e) (pathJoin P dirPath (dname e)) False None None"

text \<open>The sort key of a node and of a directory entry: the name and the directory flag.\<close>

definition key_le :: "(string \<Rightarrow> string \<Rightarrow> int) \<Rightarrow> string \<times> bool \<Rightarrow> string \<times> bool \<Rightarrow> bool" where
  "key_le cmp a b \<longleftrightarrow> (snd a \<and> \<not> snd b) \<or> (snd a = snd b \<and> cmp (fst a) (fst b) \<le> 0)"

definition nkey :: "TreeNode \<Rightarrow> string \<times> bool" where
  "nkey n = (name n, isDir n)"

definition dkey :: "Dirent \<Rightarrow> string \<times> bool" where
  "dkey e = (dname e, isDirectory e)"

text \<open>The paths of the file nodes of a forest, and the files held by a bucket and its sub-buckets.\<close>

fun file_paths :: "TreeNode list \<Rightarrow> string list" where
  "file_paths [] = []"
| "file_paths (TreeNode nm p d cs g # rest) =
     (if d then [] else [p]) @ (case cs of None \<Rightarrow> [] | Some kids \<Rightarrow> file_paths kids) @ file_paths rest"

primrec bucket_files :: "DirBucket \<Rightarrow> BucketFile list" where
  "bucket_files (DirBucket fs sd) = fs @ concat (map (\<lambda>kb. snd kb) (map (map_prod id bucket_files) sd))"

section \<open>Example environments\<close>

text \<open>A forest of a directory with one file, and a file.\<close>

definition example_forest :: "TreeNode list" where
  "example_forest =
     [TreeNode ''a'' ''/r/a'' True (Some [TreeNode ''b'' ''/r/a/b'' False None None]) None,
      TreeNode ''c'' ''/r/c'' False None None]"

text \<open>
  Glob matching on patterns without wildcards, as \<open>Bun.Glob\<close> does it: a pattern matches the
  string equal to it, and a leading \<open>!\<close> negates the match of the rest of the pattern.
\<close>

fun literal_glob :: "string \<Rightarrow> string \<Rightarrow> bool" where
  "literal_glob [] s = (s = [])"
| "literal_glob (c # p) s = (if c = CHR ''!'' then \<not> literal_glob p s else s = c # p)"

text \<open>
  A platform with POSIX-style paths below an absolute root, patterns without wildcards as
  globs, the alphabetical collation, an empty file system and no git.
\<close>

definition base_platform :: platform where
  "base_platform =
     \<lparr>readdirSync = (\<lambda>_. None), existsSync = (\<lambda>_. False), readFileSync = (\<lambda>_. None),
      gitStatusOutput = (\<lambda>_. None), localeCompare = alphabetical_cmp,
      globMatch = literal_glob,
      pathJoin = (\<lambda>a b. a @ ''/'' @ b), pathRelative = (\<lambda>r p. drop (length r + 1) p)\<rparr>"

text \<open>A directory \<open>/r\<close> holding the 500 plain files \<open>f\<close>, \<open>fx\<close>, \<open>fxx\<close>, ...\<close>

definition flat_entries :: "Dirent list" where
  "flat_entries = map (\<lambda>i. Dirent (CHR ''f'' # replicate i (CHR ''x'')) False) [0..<500]"

definition flat_platform :: platform where
  "flat_platform = base_platform\<lparr>readdirSync := [''/r'' \<mapsto> flat_entries]\<rparr>"

text \<open>The chain \<open>/r/a/b/c/d\<close> of directories; \<open>d\<close> holds a file and a directory with a file.\<close>

definition deep_platform :: platform where
  "deep_platform = base_platform\<lparr>readdirSync :=
     [''/r'' \<mapsto> [Dirent ''a'' True],
      ''/r/a'' \<mapsto> [Dirent ''b'' True],
      ''/r/a/b'' \<mapsto> [Dirent ''c'' True],
      ''/r/a/b/c'' \<mapsto> [Dirent ''d'' True],
      ''/r/a/b/c/d'' \<mapsto> [Dirent ''e'' True, Dirent ''f.txt'' False],
      ''/r/a/b/c/d/e'' \<mapsto> [Dirent ''g.txt'' False]]\<rparr>"

text \<open>A repository in which \<open>git status\<close> reports the untracked files \<open>B\<close> and \<open>a\<close>.\<close>

definition case_platform :: platform where
  "case_platform = base_platform\<lparr>gitStatusOutput :=
     (\<lambda>_. Some (''?? B'' @ [newline] @ ''?? a'' @ [newline]))\<rparr>"

text \<open>A repository with one change below each of \<open>node_modules\<close> and \<open>pkg/node_modules\<close>.\<close>

definition modules_platform :: platform where
  "modules_platform = base_platform\<lparr>gitStatusOutput :=
     (\<lambda>_. Some (''?? node_modules/x'' @ [newline] @ ''?? pkg/node_modules/x'' @ [newline]))\<rparr>"

text \<open>A root \<open>/r\<close> whose \<open>.gitignore\<close> holds a negated line and a plain line.\<close>

definition gitignore_platform :: platform where
  "gitignore_platform = base_platform
     \<lparr>existsSync := (\<lambda>p. p = ''/r/.gitignore''),
      readFileSync := [''/r/.gitignore'' \<mapsto> ''!keep'' @ [newline] @ ''build'' @ [newline]]\<rparr>"

section \<open>ControlChannel (ipc.ts)\<close>

datatype ControllerMessage = Close | Ping | Refresh | SetCwd string

datatype BrowserMessage = Ready | Pong | FileSelected string

subsection \<open>The server's \<open>data\<close> handler\<close>

text \<open>
  \<open>JSON.parse\<close> is a parameter \<open>parse\<close>; \<open>None\<close> is a thrown \<open>SyntaxError\<close>. The handler
  splits the bytes of one read at line feeds and hands every non-blank line that parses to
  \<open>onMessage\<close>; the \<open>try\<close> block swallows a failed parse. The result is the list of messages
  handed to \<open>onMessage\<close>, in order. The handler keeps nothing between two reads.
\<close>

fun server_lines :: "(string \<Rightarrow> 'm option) \<Rightarrow> string list \<Rightarrow> 'm list" where
  "server_lines parse [] = []"
| "server_lines parse (line # lines) =
     (if js_trim line \<noteq> [] then
        (case parse line of
           Some msg \<Rightarrow> msg # server_lines parse lines
         | None \<Rightarrow> server_lines parse lines)
      else server_lines parse lines)"

definition server_data :: "(string \<Rightarrow> 'm option) \<Rightarrow> string \<Rightarrow> 'm list" where
  "server_data parse data = server_lines parse (split_on newline data)"

text \<open>The messages delivered over a sequence of reads on one connection.\<close>

fun server_reads :: "(string \<Rightarrow> 'm option) \<Rightarrow> string list \<Rightarrow> 'm list" where
  "server_reads parse [] = []"
| "server_reads parse (data # reads) = server_data parse data @ server_reads parse reads"

subsection \<open>\<open>sendCommand\<close>\<close>

text \<open>
  The promise and the handlers of \<open>sendCommand\<close> as a state machine. \<open>settled\<close> is \<open>None\<close>
  while the promise is pending, \<open>Some None\<close> once it resolved to \<open>null\<close> and \<open>Some (Some m)\<close>
  once it resolved to a reply. \<open>timer\<close> holds while the 3000 ms timeout is armed.
\<close>

record 'm client =
  buffer :: string
  timer :: bool
  settled :: "'m option option"

definition client_init :: "'m client" where
  "client_init = \<lparr>buffer = [], timer = True, settled = None\<rparr>"

text \<open>\<open>resolve(v)\<close>: only the first call settles a promise.\<close>

definition resolve :: "'m option \<Rightarrow> 'm client \<Rightarrow> 'm client" where
  "resolve v s = (if settled s = None then s\<lparr>settled := Some v\<rparr> else s)"

text \<open>
  The loop of the \<open>data\<close> handler: for a non-blank line, \<open>clearTimeout\<close> runs first, then
  \<open>JSON.parse\<close>; a reply resolves the promise and returns, a failed parse is swallowed and
  the loop goes on.
\<close>

fun client_lines :: "(string \<Rightarrow> 'm option) \<Rightarrow> string list \<Rightarrow> 'm client \<Rightarrow> 'm client" where
  "client_lines parse [] s = s"
| "client_lines parse (line # lines) s =
     (if js_trim line \<noteq> [] then
        (let s' = s\<lparr>timer := False\<rparr> in
         case parse line of
           Some msg \<Rightarrow> resolve (Some msg) s'
         | None \<Rightarrow> client_lines parse lines s')
      else client_lines parse lines s)"

datatype client_event = OnOpen | OnData string | OnClose | OnError | ConnectRejected | TimerExpires

text \<open>
  One event of the socket, of the \<open>Bun.connect\<close> promise or of the clock. The timeout
  callback runs only while the timer is armed.
\<close>

fun client_step :: "(string \<Rightarrow> 'm option) \<Rightarrow> 'm client \<Rightarrow> client_event \<Rightarrow> 'm client" where
  "client_step parse s OnOpen = s"
| "client_step parse s (OnData data) =
     (let s' = s\<lparr>buffer := buffer s @ data\<rparr>
      in client_lines parse (split_on newline (buffer s')) s')"
| "client_step parse s OnClose = resolve None (s\<lparr>timer := False\<rparr>)"
| "client_step parse s OnError = resolve None (s\<lparr>timer := False\<rparr>)"
| "client_step parse s ConnectRejected = resolve None (s\<lparr>timer := False\<rparr>)"
| "client_step parse s TimerExpires =
     (if timer s then resolve None (s\<lparr>timer := False\<rparr>) else s)"

definition sendCommand :: "(string \<Rightarrow> 'm option) \<Rightarrow> client_event list \<Rightarrow> 'm client" where
  "sendCommand parse events = foldl (client_step parse) client_init events"

subsection \<open>Example parsers\<close>

text \<open>
  The restriction of \<open>JSON.parse\<close> to the serialised messages without payload: these strings
  parse to their message; on the other strings used below \<open>JSON.parse\<close> throws.
\<close>

definition parse_controller :: "string \<Rightarrow> ControllerMessage option" where
  \<open>parse_controller s =
     (if s = ''{"type":"close"}'' then Some Close
      else if s = ''{"type":"ping"}'' then Some Ping
      else if s = ''{"type":"refresh"}'' then Some Refresh
      else None)\<close>

definition parse_browser :: "string \<Rightarrow> BrowserMessage option" where
  \<open>parse_browser s =
     (if s = ''{"type":"ready"}'' then Some Ready
      else if s = ''{"type":"pong"}'' then Some Pong
      else None)\<close>

section \<open>PaneLifecycle (terminal.ts) and the \<open>toggle\<close> command (cli.ts)\<close>

text \<open>
  The world the lifecycle acts on. A path holds a regular file with its content or a
  directory; \<open>readFileSync\<close>, \<open>writeFileSync\<close> and \<open>unlinkSync\<close> throw on a directory.
  \<open>panes\<close> are the identifiers of the live panes of the multiplexer, \<open>currentPane\<close> is what
  \<open>tmux display-message -p '#{pane_id}'\<close> prints, \<open>TMUX\<close> tells whether the environment
  variable is set, \<open>splitOutcome\<close> is what \<open>tmux split-window\<close> will print when it succeeds
  (\<open>None\<close>: it exits with a non-zero code), and \<open>stderr\<close> collects the lines of
  \<open>console.error\<close>. Every \<open>tmux\<close> subprocess is taken to start and to close: a machine
  without the \<open>tmux\<close> executable, where \<open>spawn\<close> emits an error no handler takes, is outside
  these worlds.
\<close>

datatype fentry = Regular string | Directory

record world =
  disk :: "string \<rightharpoonup> fentry"
  panes :: "string set"
  currentPane :: string
  TMUX :: bool
  splitOutcome :: "string option"
  stderr :: "string list"

datatype exn = EISDIR

definition detectTmux :: "world \<Rightarrow> bool" where
  "detectTmux w = TMUX w"

definition is_alnum :: "char \<Rightarrow> bool" where
  "is_alnum c \<longleftrightarrow>
     (CHR ''a'' \<le> c \<and> c \<le> CHR ''z'') \<or> (CHR ''A'' \<le> c \<and> c \<le> CHR ''Z'') \<or>
     (CHR ''0'' \<le> c \<and> c \<le> CHR ''9'')"

definition getPaneIdFile :: "string \<Rightarrow> string" where
  "getPaneIdFile sourcePaneId =
     (let safe = filter is_alnum sourcePaneId in ''/tmp/file-browser-pane-'' @ safe)"

definition readPaneId :: "world \<Rightarrow> string \<Rightarrow> string option" where
  "readPaneId w paneIdFile =
     (case disk w paneIdFile of
        None \<Rightarrow> None
      | Some Directory \<Rightarrow> None
      | Some (Regular content) \<Rightarrow> Some (js_trim content))"

definition savePaneId :: "string \<Rightarrow> string \<Rightarrow> world \<Rightarrow> exn + world" where
  "savePaneId paneIdFile ident w =
     (case disk w paneIdFile of
        Some Directory \<Rightarrow> Inl EISDIR
      | _ \<Rightarrow> Inr (w\<lparr>disk := (disk w)(paneIdFile \<mapsto> Regular ident)\<rparr>))"

definition clearPaneId :: "string \<Rightarrow> world \<Rightarrow> world" where
  "clearPaneId paneIdFile w =
     (case disk w paneIdFile of
        Some (Regular content) \<Rightarrow> w\<lparr>disk := (disk w)(paneIdFile := None)\<rparr>
      | _ \<Rightarrow> w)"

definition paneExists :: "world \<Rightarrow> string \<Rightarrow> bool" where
  "paneExists w paneId \<longleftrightarrow> paneId \<in> panes w"

definition getCurrentPaneId :: "world \<Rightarrow> string" where
  "getCurrentPaneId w = js_trim (currentPane w)"

text \<open>\<open>tmux kill-pane -t paneId\<close>.\<close>

definition killPane :: "string \<Rightarrow> world \<Rightarrow> world" where
  "killPane paneId w = w\<lparr>panes := panes w - {paneId}\<rparr>"

definition closeBrowser :: "world \<Rightarrow> world" where
  "closeBrowser w =
     (let sourcePaneId = getCurrentPaneId w;
          paneIdFile = getPaneIdFile sourcePaneId
      in case readPaneId w paneIdFile of
           None \<Rightarrow> w
         | Some paneId \<Rightarrow>
             if paneId = [] then w
             else
               let w' = (if paneExists w paneId then killPane paneId w else w)
               in clearPaneId paneIdFile w')"

text \<open>
  \<open>reusePane\<close> sends keys to the pane, which changes nothing in this world.
  \<open>createNewPane\<close>: when \<open>split-window\<close> succeeds the pane it names is alive; the identifier
  is saved only if the trimmed output is non-empty. When \<open>savePaneId\<close> throws, the error comes
  with the world it leaves, in which the new pane exists.
\<close>

definition reusePane :: "string \<Rightarrow> string \<Rightarrow> world \<Rightarrow> world" where
  "reusePane paneId cwd w = w"

definition createNewPane ::
  "string \<Rightarrow> string \<Rightarrow> string \<Rightarrow> world \<Rightarrow> (exn \<times> world) + (string option \<times> world)" where
  "createNewPane cwd sourcePaneId paneIdFile w =
     (case splitOutcome w of
        None \<Rightarrow> Inr (None, w)
      | Some out \<Rightarrow>
          let paneId = js_trim out;
              w1 = w\<lparr>panes := insert paneId (panes w)\<rparr>
          in if paneId \<noteq> [] then
               (case savePaneId paneIdFile paneId w1 of
                  Inl e \<Rightarrow> Inl (e, w1)
                | Inr w2 \<Rightarrow> Inr (Some paneId, w2))
             else Inr (None, w1))"

definition tmux_required :: string where
  "tmux_required = ''file-browser requires tmux. Please run inside a tmux session.''"

definition spawnBrowser :: "string \<Rightarrow> world \<Rightarrow> (exn \<times> world) + (string option \<times> world)" where
  "spawnBrowser cwd w =
     (if \<not> detectTmux w then Inr (None, w\<lparr>stderr := stderr w @ [tmux_required]\<rparr>)
      else
        let sourcePaneId = getCurrentPaneId w;
            paneIdFile = getPaneIdFile sourcePaneId
        in case readPaneId w paneIdFile of
             None \<Rightarrow> createNewPane cwd sourcePaneId paneIdFile w
           | Some existingPaneId \<Rightarrow>
               if existingPaneId \<noteq> [] \<and> paneExists w existingPaneId
               then Inr (Some existingPaneId, reusePane existingPaneId cwd w)
               else createNewPane cwd sourcePaneId paneIdFile w)"

definition toggleBrowser :: "string \<Rightarrow> world \<Rightarrow> (exn \<times> world) + world" where
  "toggleBrowser cwd w =
     (let sourcePaneId = getCurrentPaneId w;
          paneIdFile = getPaneIdFile sourcePaneId;
          live = (case readPaneId w paneIdFile of
                    None \<Rightarrow> False
                  | Some paneId \<Rightarrow> paneId \<noteq> [] \<and> paneExists w paneId)
      in if live then Inr (closeBrowser w)
         else case spawnBrowser cwd (clearPaneId paneIdFile w) of
                Inl e \<Rightarrow> Inl e
              | Inr (r, w') \<Rightarrow> Inr w')"

text \<open>
  The \<open>toggle\<close> case of \<open>main\<close> with \<open>main().catch\<close>: the exit code of the process and the
  world it leaves. When \<open>main\<close> returns the process ends with code 0; a thrown error is
  printed and ends it with code 1.
\<close>

definition main_toggle :: "string \<Rightarrow> world \<Rightarrow> int \<times> world" where
  "main_toggle cwd w =
     (case toggleBrowser cwd w of
        Inr w' \<Rightarrow> (0, w')
      | Inl (e, w') \<Rightarrow> (1, w'\<lparr>stderr := stderr w' @ [''EISDIR'']\<rparr>))"

text \<open>
  The state \<open>PaneActive\<close> of the originating pane: its identity file names a live pane.
\<close>

definition pane_active :: "world \<Rightarrow> bool" where
  "pane_active w \<longleftrightarrow>
     (case readPaneId w (getPaneIdFile (getCurrentPaneId w)) of
        None \<Rightarrow> False
      | Some paneId \<Rightarrow> paneId \<noteq> [] \<and> paneExists w paneId)"

subsection \<open>Example worlds\<close>

text \<open>
  Outside the multiplexer: \<open>TMUX\<close> is unset, no server answers, nothing is stored.
\<close>

definition outside_world :: world where
  "outside_world =
     \<lparr>disk = Map.empty, panes = {}, currentPane = [], TMUX = False, splitOutcome = None, stderr = []\<rparr>"

text \<open>
  Inside pane \<open>%0\<close>, with an identity file for that pane that exists but is empty.
\<close>

definition blank_identity_world :: world where
  "blank_identity_world =
     \<lparr>disk = [''/tmp/file-browser-pane-0'' \<mapsto> Regular []], panes = {''%0''},
      currentPane = ''%0'' @ [newline], TMUX = True, splitOutcome = Some (''%1'' @ [newline]),
      stderr = []\<rparr>"

text \<open>The same pane with an identity file that names the live browser pane \<open>%1\<close>.\<close>

definition active_world :: world where
  "active_world =
     \<lparr>disk = [''/tmp/file-browser-pane-0'' \<mapsto> Regular ''%1''], panes = {''%0'', ''%1''},
      currentPane = ''%0'' @ [newline], TMUX = True, splitOutcome = Some (''%2'' @ [newline]),
      stderr = []\<rparr>"

section \<open>Properties of \<open>flattenTree\<close>\<close>

lemma link_ok_append:
  assumes "i < length fl" "link_ok fl i"
  shows "link_ok (fl @ ys) i"
  using assms by (auto simp: link_ok_def nth_append)

lemma walk_post_refl: "walk_post flat pidx False flat"
  by (auto simp: walk_post_def)

lemma walk_post_leaf:
  assumes pv: "pidx = -1 \<or> (0 \<le> pidx \<and> nat pidx < length flat)"
    and e: "parentIndex e = pidx" "firstChildIndex e = -1"
    and rest: "walk_post (flat @ [e]) pidx ne res"
  shows "walk_post flat pidx True res"
proof -
  from rest obtain new where n: "res = (flat @ [e]) @ new"
    and l: "\<forall>i. length (flat @ [e]) \<le> i \<and> i < length res \<longrightarrow> link_ok res i"
    unfolding walk_post_def by blast
  have "link_ok (flat @ [e]) (length flat)"
    using pv e by (auto simp: link_ok_def)
  then have "link_ok res (length flat)"
    unfolding n using link_ok_append[of "length flat" "flat @ [e]" new] by simp
  then have "link_ok res i" if "length flat \<le> i" "i < length res" for i
  proof (cases "i = length flat")
    case True
    with \<open>link_ok res (length flat)\<close> show ?thesis by simp
  next
    case False
    with that have "length (flat @ [e]) \<le> i" by simp
    with l that show ?thesis by blast
  qed
  then have "\<forall>i. length flat \<le> i \<and> i < length res \<longrightarrow> link_ok res i"
    by blast
  moreover have "res = flat @ (e # new)" using n by simp
  ultimately show ?thesis unfolding walk_post_def using e by force
qed

lemma walk_post_dir:
  assumes pv: "pidx = -1 \<or> (0 \<le> pidx \<and> nat pidx < length flat)"
    and e: "parentIndex e = pidx" "firstChildIndex e = int (length flat + 1)"
    and kids: "walk_post (flat @ [e]) (int (length flat)) True mid"
    and rest: "walk_post mid pidx ne res"
  shows "walk_post flat pidx True res"
proof -
  from kids obtain newc where m: "mid = (flat @ [e]) @ newc" and ne: "newc \<noteq> []"
    and hp: "parentIndex (hd newc) = int (length flat)"
    and lc: "\<forall>i. length (flat @ [e]) \<le> i \<and> i < length mid \<longrightarrow> link_ok mid i"
    unfolding walk_post_def by blast
  from rest obtain new where n: "res = mid @ new"
    and l: "\<forall>i. length mid \<le> i \<and> i < length res \<longrightarrow> link_ok res i"
    unfolding walk_post_def by blast
  have "mid ! (length flat + 1) = hd newc"
    using ne unfolding m by (simp add: nth_append hd_conv_nth)
  moreover have "mid ! length flat = e" unfolding m by (simp add: nth_append)
  moreover have "length flat + 1 < length mid" using ne unfolding m by (cases newc) simp_all
  moreover have "nat (firstChildIndex e) = length flat + 1" "0 \<le> firstChildIndex e"
    "firstChildIndex e \<noteq> -1"
    by (simp_all only: e nat_int of_nat_0_le_iff)
  ultimately have own: "link_ok mid (length flat)"
    using pv e(1) hp unfolding link_ok_def by auto
  have "link_ok mid i" if "length flat \<le> i" "i < length mid" for i
  proof (cases "i = length flat")
    case True
    with own show ?thesis by simp
  next
    case False
    with that lc show ?thesis by simp
  qed
  then have "link_ok res i" if "length flat \<le> i" "i < length mid" for i
    unfolding n using that link_ok_append[of i mid new] by simp
  with l have "\<forall>i. length flat \<le> i \<and> i < length res \<longrightarrow> link_ok res i"
    by (meson not_le_imp_less)
  moreover have "res = flat @ (e # newc @ new)" using n m by simp
  ultimately show ?thesis unfolding walk_post_def using e by force
qed

lemma walk_post_trans:
  assumes "walk_post flat pidx True mid" "walk_post mid pidx ne res"
  shows "walk_post flat pidx True res"
proof -
  from assms(1) obtain new1 where m: "mid = flat @ new1" and ne: "new1 \<noteq> []"
    and hp: "parentIndex (hd new1) = pidx"
    and l1: "\<forall>i. length flat \<le> i \<and> i < length mid \<longrightarrow> link_ok mid i"
    unfolding walk_post_def by blast
  from assms(2) obtain new2 where n: "res = mid @ new2"
    and l2: "\<forall>i. length mid \<le> i \<and> i < length res \<longrightarrow> link_ok res i"
    unfolding walk_post_def by blast
  have "link_ok res i" if "length flat \<le> i" "i < length mid" for i
    unfolding n using that l1 link_ok_append[of i mid new2] by simp
  with l2 have "\<forall>i. length flat \<le> i \<and> i < length res \<longrightarrow> link_ok res i"
    by (meson not_le_imp_less)
  moreover have "res = flat @ (new1 @ new2)" using n m by simp
  moreover have "hd (new1 @ new2) = hd new1" using ne by simp
  ultimately show ?thesis unfolding walk_post_def using ne hp by (metis append_is_Nil_conv)
qed

lemma flat_walk_Cons:
  "flat_walk (nd # rest) dep pre pidx flat =
     flat_walk rest dep pre pidx (flat_node nd (rest = []) dep pre pidx flat)"
  by (cases "children nd") (simp_all add: Let_def flat_node_def)

lemma size_children: "children nd = Some cs \<Longrightarrow> size_list size cs < size nd"
  by (cases nd) simp

lemma flat_walk_post:
  assumes "pidx = -1 \<or> (0 \<le> pidx \<and> nat pidx < length flat)"
  shows "walk_post flat pidx (ns \<noteq> []) (flat_walk ns dep pre pidx flat)"
  using assms
proof (induction "size_list size ns" arbitrary: ns dep pre pidx flat rule: less_induct)
  case less
  show ?case
  proof (cases ns)
    case Nil
    then show ?thesis by (simp add: walk_post_refl)
  next
    case (Cons nd rest)
    let ?mid = "flat_node nd (rest = []) dep pre pidx flat"
    let ?conn = "if rest = [] then connector_last else connector_mid"
    let ?e = "\<lparr>node = nd, depth = dep, prefix = pre, connector = ?conn,
                parentIndex = pidx, firstChildIndex = -1\<rparr>"
    have pv: "pidx = -1 \<or> (0 \<le> pidx \<and> nat pidx < length flat)" by fact
    have step: "walk_post flat pidx True ?mid"
    proof (cases "\<exists>cs. children nd = Some cs \<and> cs \<noteq> []")
      case False
      then have "?mid = flat @ [?e]"
        by (auto simp: flat_node_def Let_def split: option.splits)
      moreover have "walk_post flat pidx True (flat @ [?e])"
        by (rule walk_post_leaf[OF pv _ _ walk_post_refl]) simp_all
      ultimately show ?thesis by simp
    next
      case True
      then obtain cs where cs: "children nd = Some cs" "cs \<noteq> []" by blast
      let ?e' = "?e\<lparr>firstChildIndex := int (length flat + 1)\<rparr>"
      let ?cp = "pre @ (if rest = [] then ''    '' else prefix_bar)"
      have m: "?mid = flat_walk cs (dep + 1) ?cp (int (length flat)) (flat @ [?e'])"
        using cs by (simp add: flat_node_def Let_def)
      have "size_list size cs < size_list size ns"
        using size_children[OF cs(1)] Cons by simp
      then have "walk_post (flat @ [?e']) (int (length flat)) (cs \<noteq> [])
                   (flat_walk cs (dep + 1) ?cp (int (length flat)) (flat @ [?e']))"
        by (rule less.hyps) simp
      then have kids: "walk_post (flat @ [?e']) (int (length flat)) True ?mid"
        using cs m by simp
      show ?thesis
        by (rule walk_post_dir[OF pv _ _ kids walk_post_refl]) simp_all
    qed
    then obtain new where mid: "?mid = flat @ new"
      unfolding walk_post_def by blast
    have pv2: "pidx = -1 \<or> (0 \<le> pidx \<and> nat pidx < length ?mid)"
      using pv unfolding mid by auto
    have "size_list size rest < size_list size ns" using Cons by simp
    then have rest: "walk_post ?mid pidx (rest \<noteq> []) (flat_walk rest dep pre pidx ?mid)"
      using pv2 by (rule less.hyps)
    have "walk_post flat pidx True (flat_walk rest dep pre pidx ?mid)"
      using step rest by (rule walk_post_trans)
    then show ?thesis unfolding Cons flat_walk_Cons by simp
  qed
qed

text \<open>
  C1. In the sequence produced by \<open>flattenTree\<close>, for every forest, every entry has
  \<open>firstChildIndex = -1\<close> or its \<open>firstChildIndex\<close> is a valid index whose entry has this entry's
  own index as \<open>parentIndex\<close>; and every \<open>parentIndex\<close> is \<open>-1\<close> or a valid index.
\<close>

theorem flattenTree_links:
  "\<forall>i < length (flattenTree nodes).
     (let flat = flattenTree nodes; e = flat ! i in
        (firstChildIndex e = -1 \<or>
           (0 \<le> firstChildIndex e \<and> nat (firstChildIndex e) < length flat \<and>
            parentIndex (flat ! nat (firstChildIndex e)) = int i)) \<and>
        (parentIndex e = -1 \<or> (0 \<le> parentIndex e \<and> nat (parentIndex e) < length flat)))"
proof -
  have "walk_post [] (-1) (nodes \<noteq> []) (flattenTree nodes)"
    unfolding flattenTree_def by (rule flat_walk_post) simp
  then have "\<forall>i < length (flattenTree nodes). link_ok (flattenTree nodes) i"
    by (simp add: walk_post_def)
  then show ?thesis
    by (simp add: link_ok_def Let_def)
qed

lemma flattenTree_example:
  "map (\<lambda>e. (name (node e), depth e, parentIndex e, firstChildIndex e)) (flattenTree example_forest) =
     [(''a'', 0, -1, 1), (''b'', 1, 0, -1), (''c'', 0, -1, -1)]"
  by (simp add: flattenTree_def example_forest_def Let_def)

text \<open>C1 on the example forest: entry 0 points to entry 1, whose parent is entry 0.\<close>

theorem flattenTree_links_witness:
  "0 < length (flattenTree example_forest) \<and>
   firstChildIndex (flattenTree example_forest ! 0) = 1 \<and>
   parentIndex (flattenTree example_forest ! 1) = 0"
proof -
  have len: "length (flattenTree example_forest) = 3"
    using arg_cong[OF flattenTree_example, of length] by simp
  have fc: "firstChildIndex (flattenTree example_forest ! 0) = 1"
    using arg_cong[OF flattenTree_example, of "\<lambda>xs. snd (snd (snd (xs ! 0)))"] len by simp
  have "0 < length (flattenTree example_forest)" using len by simp
  with flattenTree_links[of example_forest]
  have "let flat = flattenTree example_forest; e = flat ! 0 in
          (firstChildIndex e = -1 \<or>
             (0 \<le> firstChildIndex e \<and> nat (firstChildIndex e) < length flat \<and>
              parentIndex (flat ! nat (firstChildIndex e)) = int 0))"
    unfolding Let_def by blast
  with fc have "parentIndex (flattenTree example_forest ! 1) = 0"
    by (simp add: Let_def)
  with len fc show ?thesis by simp
qed


section \<open>Properties of \<open>walkTree\<close>\<close>

declare walk.simps [simp del] walk_loop.simps(2) [simp del]

subsection \<open>The shared counter\<close>

lemma countNodes_append: "countNodes (xs @ ys) = countNodes xs + countNodes ys"
  by (induction xs rule: countNodes.induct) simp_all

lemma levels_append: "levels (xs @ ys) = max (levels xs) (levels ys)"
  by (induction xs rule: levels.induct) simp_all

lemma walk_count_cap:
  "walk P C dirPath dep c = (ns, c') \<Longrightarrow>
     c' = c + int (countNodes ns) \<and> c' \<le> max c (maxEntries C)"
  "walk_loop P C dirPath dep es acc c = (ns, c') \<Longrightarrow>
     c' + int (countNodes acc) = c + int (countNodes ns) \<and> c' \<le> max c (maxEntries C)"
proof (induction P C dirPath dep c and P C dirPath dep es acc c arbitrary: ns c' and ns c'
       rule: walk_walk_loop.induct)
  case (1 P C dirPath dep entryCount)
  then show ?case
    by (auto simp: walk.simps split: if_splits option.splits)
next
  case (2 P C dirPath dep nodes entryCount)
  then show ?case by simp
next
  case (3 P C dirPath dep entry entries nodes entryCount)
  show ?case
  proof (cases "entryCount \<ge> maxEntries C")
    case True
    with "3.prems" show ?thesis by (simp add: walk_loop.simps)
  next
    case False
    let ?full = "pathJoin P dirPath (dname entry)"
    let ?rel = "pathRelative P (rootPath C) ?full"
    show ?thesis
    proof (cases "shouldIgnore P (dname entry) ?rel (isDirectory entry) (ignorePatterns C) (gitignoreGlobs C)")
      case True
      with False "3.prems" have "walk_loop P C dirPath dep entries nodes entryCount = (ns, c')"
        by (simp add: walk_loop.simps Let_def)
      from "3.IH"(1)[OF False refl refl refl True this] show ?thesis .
    next
      case ign: False
      show ?thesis
      proof (cases "isDirectory entry")
        case True
        obtain kids c1 where w: "walk P C ?full (dep + 1) (entryCount + 1) = (kids, c1)"
          by (cases "walk P C ?full (dep + 1) (entryCount + 1)")
        from "3.IH"(2)[OF False refl refl refl ign True w]
        have k: "c1 = entryCount + 1 + int (countNodes kids)" "c1 \<le> max (entryCount + 1) (maxEntries C)"
          by simp_all
        from False ign True w "3.prems"
        have l: "walk_loop P C dirPath dep entries
                   (nodes @ [TreeNode (dname entry) ?full (isDirectory entry) (Some kids) None]) c1 = (ns, c')"
          by (simp add: walk_loop.simps Let_def)
        from "3.IH"(3)[OF False refl refl refl ign True w[symmetric] l]
        show ?thesis using k False by (auto simp: countNodes_append)
      next
        case isfile: False
        from False ign isfile "3.prems"
        have l: "walk_loop P C dirPath dep entries
                   (nodes @ [TreeNode (dname entry) ?full (isDirectory entry) None None]) (entryCount + 1) = (ns, c')"
          by (simp add: walk_loop.simps Let_def)
        from "3.IH"(4)[OF False refl refl refl ign isfile l]
        show ?thesis using False by (auto simp: countNodes_append)
      qed
    qed
  qed
qed


subsection \<open>Sorting\<close>

lemma set_insert_by: "set (insert_by cmp x xs) = insert x (set xs)"
  by (induction xs) auto

lemma length_insert_by: "length (insert_by cmp x xs) = Suc (length xs)"
  by (induction xs) auto

lemma set_js_sort: "set (js_sort cmp xs) = set xs"
  by (induction xs) (simp_all add: js_sort_def set_insert_by)

lemma length_js_sort: "length (js_sort cmp xs) = length xs"
  by (induction xs) (simp_all add: js_sort_def length_insert_by)

lemma sorted_insert_by:
  assumes "consistent_cmp cmp" "sorted_wrt (\<lambda>a b. cmp a b \<le> 0) xs"
  shows "sorted_wrt (\<lambda>a b. cmp a b \<le> 0) (insert_by cmp x xs)"
  using assms(2)
proof (induction xs)
  case Nil
  then show ?case by simp
next
  case (Cons y ys)
  from assms(1) have tot: "cmp a b \<le> 0 \<or> cmp b a \<le> 0" for a b
    unfolding consistent_cmp_def by blast
  from assms(1) have tr: "cmp a b \<le> 0 \<Longrightarrow> cmp b c \<le> 0 \<Longrightarrow> cmp a c \<le> 0" for a b c
    unfolding consistent_cmp_def by blast
  show ?case
  proof (cases "cmp x y \<le> 0")
    case True
    with Cons.prems tr show ?thesis by auto
  next
    case False
    with tot[of x y] have "cmp y x \<le> 0" by simp
    with Cons False show ?thesis by (auto simp: set_insert_by)
  qed
qed

lemma sorted_js_sort:
  "consistent_cmp cmp \<Longrightarrow> sorted_wrt (\<lambda>a b. cmp a b \<le> 0) (js_sort cmp xs)"
  by (induction xs) (simp_all add: js_sort_def sorted_insert_by)

lemma sorted_wrt_subseq:
  "subseq xs ys \<Longrightarrow> sorted_wrt R ys \<Longrightarrow> sorted_wrt R xs"
proof (induction rule: list_emb.induct)
  case (list_emb_Nil ys)
  then show ?case by simp
next
  case (list_emb_Cons xs ys y)
  then show ?case by simp
next
  case (list_emb_Cons2 x y xs ys)
  from list_emb_Cons2 have "set xs \<subseteq> set ys"
    using list_emb_set[of "(=)" xs ys] by auto
  with list_emb_Cons2 show ?case by auto
qed

subsection \<open>Depth\<close>

lemma walk_levels:
  "levels (fst (walk P C dirPath dep c)) \<le> nat (maxDepth C + 1 - dep)"
  "levels (fst (walk_loop P C dirPath dep es acc c)) \<le> max (levels acc) (1 + nat (maxDepth C - dep))"
proof (induction P C dirPath dep c and P C dirPath dep es acc c rule: walk_walk_loop.induct)
  case (1 P C dirPath dep entryCount)
  show ?case
  proof (cases "dep > maxDepth C \<or> entryCount \<ge> maxEntries C")
    case True
    then show ?thesis by (simp add: walk.simps)
  next
    case False
    show ?thesis
    proof (cases "readdirSync P dirPath")
      case None
      with False show ?thesis by (simp add: walk.simps)
    next
      case (Some entries)
      from False have "Suc (nat (maxDepth C - dep)) = nat (maxDepth C + 1 - dep)" by linarith
      with "1.IH"[OF False Some] False Some show ?thesis
        by (simp add: walk.simps)
    qed
  qed
next
  case (2 P C dirPath dep nodes entryCount)
  show ?case by simp
next
  case (3 P C dirPath dep entry entries nodes entryCount)
  show ?case
  proof (cases "entryCount \<ge> maxEntries C")
    case True
    then show ?thesis by (simp add: walk_loop.simps)
  next
    case False
    let ?full = "pathJoin P dirPath (dname entry)"
    let ?rel = "pathRelative P (rootPath C) ?full"
    show ?thesis
    proof (cases "shouldIgnore P (dname entry) ?rel (isDirectory entry) (ignorePatterns C) (gitignoreGlobs C)")
      case True
      from "3.IH"(1)[OF False refl refl refl True] False True show ?thesis
        by (simp add: walk_loop.simps Let_def)
    next
      case ign: False
      show ?thesis
      proof (cases "isDirectory entry")
        case True
        obtain kids c1 where w: "walk P C ?full (dep + 1) (entryCount + 1) = (kids, c1)"
          by (cases "walk P C ?full (dep + 1) (entryCount + 1)")
        from "3.IH"(2)[OF False refl refl refl ign True] w
        have k: "levels kids \<le> nat (maxDepth C - dep)" by simp
        from "3.IH"(3)[OF False refl refl refl ign True w[symmetric]] k
        show ?thesis using False ign True w
          by (simp add: walk_loop.simps Let_def levels_append)
      next
        case isfile: False
        from "3.IH"(4)[OF False refl refl refl ign isfile]
        show ?thesis using False ign isfile
          by (simp add: walk_loop.simps Let_def levels_append)
      qed
    qed
  qed
qed

subsection \<open>A directory of plain files\<close>

lemma walk_loop_files:
  assumes "\<forall>e\<in>set es. \<not> isDirectory e \<and>
             \<not> shouldIgnore P (dname e) (pathRelative P (rootPath C) (pathJoin P dirPath (dname e)))
                  False (ignorePatterns C) (gitignoreGlobs C)"
  shows "walk_loop P C dirPath dep es acc c =
           (acc @ map (file_node P dirPath) (take (nat (maxEntries C - c)) es),
            c + int (min (length es) (nat (maxEntries C - c))))"
  using assms
proof (induction es arbitrary: acc c)
  case Nil
  then show ?case by simp
next
  case (Cons e es)
  show ?case
  proof (cases "c \<ge> maxEntries C")
    case True
    then show ?thesis by (simp add: walk_loop.simps)
  next
    case False
    then have k: "nat (maxEntries C - c) = Suc (nat (maxEntries C - (c + 1)))"
      by linarith
    from Cons.prems have e: "\<not> isDirectory e"
      "\<not> shouldIgnore P (dname e) (pathRelative P (rootPath C) (pathJoin P dirPath (dname e)))
           (isDirectory e) (ignorePatterns C) (gitignoreGlobs C)"
      by simp_all
    from Cons.prems have "\<forall>e\<in>set es. \<not> isDirectory e \<and>
             \<not> shouldIgnore P (dname e) (pathRelative P (rootPath C) (pathJoin P dirPath (dname e)))
                  False (ignorePatterns C) (gitignoreGlobs C)" by simp
    from Cons.IH[OF this] False e k show ?thesis
      by (simp add: walk_loop.simps Let_def file_node_def)
  qed
qed

lemma countNodes_files: "countNodes (map (file_node P d) es) = length es"
  by (induction es) (simp_all add: file_node_def)

subsection \<open>The entry cap\<close>

lemma walkTree_count_le:
  "countNodes (walkTree P root options) \<le> nat (case opt_maxEntries options of None \<Rightarrow> 200 | Some n \<Rightarrow> n)"
proof -
  define C where "C = \<lparr>rootPath = root,
               maxDepth = (case opt_maxDepth options of None \<Rightarrow> 4 | Some d \<Rightarrow> d),
               maxEntries = (case opt_maxEntries options of None \<Rightarrow> 200 | Some n \<Rightarrow> n),
               ignorePatterns = (case opt_ignorePatterns options of None \<Rightarrow> DEFAULT_IGNORE | Some ps \<Rightarrow> ps),
               gitignoreGlobs = parseGitignore P root\<rparr>"
  obtain ns c' where w: "walk P C root 0 0 = (ns, c')" by (cases "walk P C root 0 0")
  from walk_count_cap(1)[OF w] have "int (countNodes ns) \<le> max 0 (maxEntries C)" by simp
  then have "countNodes ns \<le> nat (maxEntries C)" by linarith
  moreover have "walkTree P root options = ns"
    using w by (simp add: walkTree_def Let_def C_def)
  ultimately show ?thesis by (simp add: C_def)
qed

lemma walkTree_flat:
  assumes rd: "readdirSync P root = Some es"
    and files: "\<forall>e\<in>set es. \<not> isDirectory e \<and>
             \<not> shouldIgnore P (dname e) (pathRelative P root (pathJoin P root (dname e)))
                  False DEFAULT_IGNORE (parseGitignore P root)"
  shows "walkTree P root default_options =
           map (file_node P root) (take 200 (js_sort (dirent_cmp P) es))"
proof -
  define C where "C = \<lparr>rootPath = root, maxDepth = 4, maxEntries = 200,
               ignorePatterns = DEFAULT_IGNORE, gitignoreGlobs = parseGitignore P root\<rparr>"
  have "\<forall>e\<in>set (js_sort (dirent_cmp P) es). \<not> isDirectory e \<and>
             \<not> shouldIgnore P (dname e) (pathRelative P (rootPath C) (pathJoin P root (dname e)))
                  False (ignorePatterns C) (gitignoreGlobs C)"
    using files by (simp add: set_js_sort C_def)
  from walk_loop_files[OF this, of 0 "[]" 0]
  have "walk P C root 0 0 = (map (file_node P root) (take 200 (js_sort (dirent_cmp P) es)),
          int (min (length (js_sort (dirent_cmp P) es)) 200))"
    using rd by (simp add: walk.simps C_def)
  then show ?thesis
    by (simp add: walkTree_def Let_def C_def default_options_def)
qed

text \<open>
  C2. The cap \<open>maxEntries\<close> (default 200) bounds the number of nodes of the whole forest,
  whatever the options and the file system; and over a directory of 500 plain files, none
  of them ignored, the build with default options yields exactly 200 nodes.
\<close>

theorem walkTree_entry_cap:
  "countNodes (walkTree P root options) \<le> nat (case opt_maxEntries options of None \<Rightarrow> 200 | Some n \<Rightarrow> n) \<and>
   (readdirSync P root = Some es \<and> length es = 500 \<and>
    (\<forall>e\<in>set es. \<not> isDirectory e \<and>
        \<not> shouldIgnore P (dname e) (pathRelative P root (pathJoin P root (dname e)))
             False DEFAULT_IGNORE (parseGitignore P root))
    \<longrightarrow> length (walkTree P root default_options) = 200 \<and>
        countNodes (walkTree P root default_options) = 200)"
proof (intro conjI impI)
  show "countNodes (walkTree P root options) \<le> nat (case opt_maxEntries options of None \<Rightarrow> 200 | Some n \<Rightarrow> n)"
    by (rule walkTree_count_le)
next
  assume a: "readdirSync P root = Some es \<and> length es = 500 \<and>
    (\<forall>e\<in>set es. \<not> isDirectory e \<and>
        \<not> shouldIgnore P (dname e) (pathRelative P root (pathJoin P root (dname e)))
             False DEFAULT_IGNORE (parseGitignore P root))"
  then have eq: "walkTree P root default_options =
           map (file_node P root) (take 200 (js_sort (dirent_cmp P) es))"
    by (intro walkTree_flat) simp_all
  from a show "length (walkTree P root default_options) = 200"
    unfolding eq by (simp add: length_js_sort)
  from a show "countNodes (walkTree P root default_options) = 200"
    unfolding eq by (simp add: countNodes_files length_js_sort)
qed

lemma flat_platform_files:
  "\<forall>e\<in>set flat_entries. \<not> isDirectory e \<and>
        \<not> shouldIgnore flat_platform (dname e)
             (pathRelative flat_platform ''/r'' (pathJoin flat_platform ''/r'' (dname e)))
             False DEFAULT_IGNORE (parseGitignore flat_platform ''/r'')"
  by (auto simp: flat_entries_def flat_platform_def base_platform_def parseGitignore_def
        shouldIgnore_def DEFAULT_IGNORE_def)

text \<open>C2 on the directory of 500 plain files.\<close>

theorem walkTree_entry_cap_witness:
  "length flat_entries = 500 \<and> countNodes (walkTree flat_platform ''/r'' default_options) = 200"
proof -
  have rd: "readdirSync flat_platform ''/r'' = Some flat_entries"
    by (simp add: flat_platform_def)
  have len: "length flat_entries = 500" by (simp add: flat_entries_def)
  from walkTree_entry_cap[of flat_platform "''/r''" default_options flat_entries]
    rd len flat_platform_files
  show ?thesis by blast
qed

subsection \<open>The depth bound\<close>

lemma deep_platform_tree:
  "walkTree deep_platform ''/r'' default_options =
     [TreeNode ''a'' ''/r/a'' True (Some
       [TreeNode ''b'' ''/r/a/b'' True (Some
         [TreeNode ''c'' ''/r/a/b/c'' True (Some
           [TreeNode ''d'' ''/r/a/b/c/d'' True (Some
             [TreeNode ''e'' ''/r/a/b/c/d/e'' True (Some []) None,
              TreeNode ''f.txt'' ''/r/a/b/c/d/f.txt'' False None None]) None]) None]) None]) None]"
  by (simp add: walkTree_def default_options_def deep_platform_def base_platform_def
        parseGitignore_def walk.simps walk_loop.simps Let_def js_sort_def dirent_cmp_def
        shouldIgnore_def DEFAULT_IGNORE_def)

text \<open>
  C7 as stated, that no emitted node lies deeper than 4 levels below the root, fails: over the
  chain \<open>/r/a/b/c/d\<close> the entries of \<open>d\<close>, five levels below \<open>/r\<close>, are emitted.
\<close>

theorem walkTree_depth_counterexample:
  "\<not> levels (walkTree deep_platform ''/r'' default_options) \<le> 4"
  by (simp add: deep_platform_tree)

text \<open>
  C7 (amended). \<open>walk\<close> reads the directories at depth 0 (the root) to \<open>maxDepth\<close>, so
  no emitted node lies deeper than \<open>maxDepth + 1\<close> levels below the root: 5 levels with the
  default \<open>maxDepth = 4\<close>.
\<close>

theorem walkTree_depth_bound:
  "levels (walkTree P root options) \<le> nat ((case opt_maxDepth options of None \<Rightarrow> 4 | Some d \<Rightarrow> d) + 1) \<and>
   levels (walkTree P root default_options) \<le> 5"
proof -
  have "levels (walkTree P root opts) \<le> nat ((case opt_maxDepth opts of None \<Rightarrow> 4 | Some d \<Rightarrow> d) + 1)" for opts
  proof -
    define C where "C = \<lparr>rootPath = root,
               maxDepth = (case opt_maxDepth opts of None \<Rightarrow> 4 | Some d \<Rightarrow> d),
               maxEntries = (case opt_maxEntries opts of None \<Rightarrow> 200 | Some n \<Rightarrow> n),
               ignorePatterns = (case opt_ignorePatterns opts of None \<Rightarrow> DEFAULT_IGNORE | Some ps \<Rightarrow> ps),
               gitignoreGlobs = parseGitignore P root\<rparr>"
    have "walkTree P root opts = fst (walk P C root 0 0)"
      by (simp add: walkTree_def Let_def C_def)
    with walk_levels(1)[of P C root 0 0] show ?thesis by (simp add: C_def)
  qed
  from this[of options] this[of default_options] show ?thesis
    by (simp add: default_options_def)
qed


section \<open>Ordering of sibling groups\<close>

lemma ordered_by_key: "ordered_by cmp a b \<longleftrightarrow> key_le cmp (nkey a) (nkey b)"
  by (simp add: ordered_by_def key_le_def nkey_def)

lemma ordered_by_key_eq: "ordered_by cmp = (\<lambda>x y. key_le cmp (nkey x) (nkey y))"
  by (intro ext) (simp add: ordered_by_key)

lemma dirent_cmp_key: "dirent_cmp P a b \<le> 0 \<longleftrightarrow> key_le (localeCompare P) (dkey a) (dkey b)"
  by (auto simp: dirent_cmp_def key_le_def dkey_def)

lemma node_cmp_key: "node_cmp P a b \<le> 0 \<longleftrightarrow> ordered_by (localeCompare P) a b"
  by (auto simp: node_cmp_def ordered_by_def)

lemma consistent_dirent_cmp:
  assumes "consistent_cmp (localeCompare P)"
  shows "consistent_cmp (dirent_cmp P)"
proof -
  from assms have tot: "localeCompare P a b \<le> 0 \<or> localeCompare P b a \<le> 0" for a b
    unfolding consistent_cmp_def by blast
  from assms have tr: "localeCompare P a b \<le> 0 \<Longrightarrow> localeCompare P b c \<le> 0 \<Longrightarrow> localeCompare P a c \<le> 0" for a b c
    unfolding consistent_cmp_def by blast
  have "dirent_cmp P a b \<le> 0 \<or> dirent_cmp P b a \<le> 0" for a b
    using tot[of "dname a" "dname b"] by (auto simp: dirent_cmp_def)
  moreover have "dirent_cmp P a c \<le> 0" if "dirent_cmp P a b \<le> 0" "dirent_cmp P b c \<le> 0" for a b c
    using that tr[of "dname a" "dname b" "dname c"] by (auto simp: dirent_cmp_def split: if_splits)
  ultimately show ?thesis unfolding consistent_cmp_def by blast
qed

lemma consistent_node_cmp:
  assumes "consistent_cmp (localeCompare P)"
  shows "consistent_cmp (node_cmp P)"
proof -
  from assms have tot: "localeCompare P a b \<le> 0 \<or> localeCompare P b a \<le> 0" for a b
    unfolding consistent_cmp_def by blast
  from assms have tr: "localeCompare P a b \<le> 0 \<Longrightarrow> localeCompare P b c \<le> 0 \<Longrightarrow> localeCompare P a c \<le> 0" for a b c
    unfolding consistent_cmp_def by blast
  have "node_cmp P a b \<le> 0 \<or> node_cmp P b a \<le> 0" for a b
    using tot[of "name a" "name b"] by (auto simp: node_cmp_def)
  moreover have "node_cmp P a c \<le> 0" if "node_cmp P a b \<le> 0" "node_cmp P b c \<le> 0" for a b c
    using that tr[of "name a" "name b" "name c"] by (auto simp: node_cmp_def split: if_splits)
  ultimately show ?thesis unfolding consistent_cmp_def by blast
qed

lemma subgroups_append: "subgroups (xs @ ys) = subgroups xs @ subgroups ys"
  by (induction xs rule: subgroups.induct) simp_all

lemma walk_loop_subseq:
  "\<exists>new. fst (walk_loop P C dirPath dep es acc c) = acc @ new \<and> subseq (map nkey new) (map dkey es)"
proof (induction es arbitrary: acc c)
  case Nil
  then show ?case by simp
next
  case (Cons e es)
  let ?full = "pathJoin P dirPath (dname e)"
  obtain kids c1 where w: "walk P C ?full (dep + 1) (c + 1) = (kids, c1)"
    by (cases "walk P C ?full (dep + 1) (c + 1)")
  let ?res = "fst (walk_loop P C dirPath dep (e # es) acc c)"
  have "?res = acc
      \<or> ?res = fst (walk_loop P C dirPath dep es acc c)
      \<or> ?res = fst (walk_loop P C dirPath dep es (acc @ [TreeNode (dname e) ?full (isDirectory e) (Some kids) None]) c1)
      \<or> ?res = fst (walk_loop P C dirPath dep es (acc @ [TreeNode (dname e) ?full (isDirectory e) None None]) (c + 1))"
    using w by (simp add: walk_loop.simps Let_def)
  then consider (stop) "?res = acc"
    | (skip) "?res = fst (walk_loop P C dirPath dep es acc c)"
    | (dir) "?res = fst (walk_loop P C dirPath dep es (acc @ [TreeNode (dname e) ?full (isDirectory e) (Some kids) None]) c1)"
    | (plain) "?res = fst (walk_loop P C dirPath dep es (acc @ [TreeNode (dname e) ?full (isDirectory e) None None]) (c + 1))"
    by blast
  then show ?case
  proof cases
    case stop
    then show ?thesis by simp
  next
    case skip
    with Cons.IH[of acc c] show ?thesis by auto
  next
    case dir
    from Cons.IH[of "acc @ [TreeNode (dname e) ?full (isDirectory e) (Some kids) None]" c1]
    obtain new where "fst (walk_loop P C dirPath dep es (acc @ [TreeNode (dname e) ?full (isDirectory e) (Some kids) None]) c1)
        = (acc @ [TreeNode (dname e) ?full (isDirectory e) (Some kids) None]) @ new"
      "subseq (map nkey new) (map dkey es)" by blast
    with dir have "?res = acc @ (TreeNode (dname e) ?full (isDirectory e) (Some kids) None # new)"
      "subseq (map nkey (TreeNode (dname e) ?full (isDirectory e) (Some kids) None # new)) (map dkey (e # es))"
      by (simp_all add: nkey_def dkey_def)
    then show ?thesis by blast
  next
    case plain
    from Cons.IH[of "acc @ [TreeNode (dname e) ?full (isDirectory e) None None]" "c + 1"]
    obtain new where "fst (walk_loop P C dirPath dep es (acc @ [TreeNode (dname e) ?full (isDirectory e) None None]) (c + 1))
        = (acc @ [TreeNode (dname e) ?full (isDirectory e) None None]) @ new"
      "subseq (map nkey new) (map dkey es)" by blast
    with plain have "?res = acc @ (TreeNode (dname e) ?full (isDirectory e) None None # new)"
      "subseq (map nkey (TreeNode (dname e) ?full (isDirectory e) None None # new)) (map dkey (e # es))"
      by (simp_all add: nkey_def dkey_def)
    then show ?thesis by blast
  qed
qed


lemma walk_top_sorted:
  assumes "consistent_cmp (localeCompare P)"
  shows "sorted_wrt (ordered_by (localeCompare P))
           (fst (walk_loop P C dirPath dep (js_sort (dirent_cmp P) entries) [] c))"
proof -
  let ?es = "js_sort (dirent_cmp P) entries"
  obtain new where n: "fst (walk_loop P C dirPath dep ?es [] c) = new"
    and sub: "subseq (map nkey new) (map dkey ?es)"
    using walk_loop_subseq[of P C dirPath dep ?es "[]" c] by auto
  have "sorted_wrt (\<lambda>a b. dirent_cmp P a b \<le> 0) ?es"
    by (rule sorted_js_sort[OF consistent_dirent_cmp[OF assms]])
  then have "sorted_wrt (key_le (localeCompare P)) (map dkey ?es)"
    by (simp add: sorted_wrt_map dirent_cmp_key)
  with sub have "sorted_wrt (key_le (localeCompare P)) (map nkey new)"
    by (rule sorted_wrt_subseq)
  then show ?thesis
    unfolding n by (simp add: sorted_wrt_map ordered_by_key_eq)
qed

lemma walk_groups_sorted:
  "consistent_cmp (localeCompare P) \<Longrightarrow>
     \<forall>g\<in>set (sibling_groups (fst (walk P C dirPath dep c))).
           sorted_wrt (ordered_by (localeCompare P)) g"
  "consistent_cmp (localeCompare P) \<Longrightarrow>
     (\<forall>g\<in>set (subgroups acc). sorted_wrt (ordered_by (localeCompare P)) g) \<Longrightarrow>
         (\<forall>g\<in>set (subgroups (fst (walk_loop P C dirPath dep es acc c))).
            sorted_wrt (ordered_by (localeCompare P)) g)"
proof (induction P C dirPath dep c and P C dirPath dep es acc c rule: walk_walk_loop.induct)
  case (1 P C dirPath dep entryCount)
  note cons = "1.prems"(1)
  show ?case
  proof (cases "dep > maxDepth C \<or> entryCount \<ge> maxEntries C")
    case True
    then show ?thesis by (simp add: walk.simps sibling_groups_def)
  next
    case False
    show ?thesis
    proof (cases "readdirSync P dirPath")
      case None
      with False show ?thesis by (simp add: walk.simps sibling_groups_def)
    next
      case (Some entries)
      have w: "fst (walk P C dirPath dep entryCount) =
                 fst (walk_loop P C dirPath dep (js_sort (dirent_cmp P) entries) [] entryCount)"
        using False Some by (simp add: walk.simps)
      from "1.IH"[OF False Some cons] walk_top_sorted[OF cons]
      show ?thesis unfolding w sibling_groups_def by simp
    qed
  qed
next
  case (2 P C dirPath dep nodes entryCount)
  then show ?case by simp
next
  case (3 P C dirPath dep entry entries nodes entryCount)
  note cons = "3.prems"(1) and accs = "3.prems"(2)
  show ?case
  proof (cases "entryCount \<ge> maxEntries C")
    case True
    with accs show ?thesis by (simp add: walk_loop.simps)
  next
    case False
    let ?full = "pathJoin P dirPath (dname entry)"
    let ?rel = "pathRelative P (rootPath C) ?full"
    show ?thesis
    proof (cases "shouldIgnore P (dname entry) ?rel (isDirectory entry) (ignorePatterns C) (gitignoreGlobs C)")
      case True
      from "3.IH"(1)[OF False refl refl refl True cons accs] False True show ?thesis
        by (simp add: walk_loop.simps Let_def)
    next
      case ign: False
      show ?thesis
      proof (cases "isDirectory entry")
        case True
        obtain kids c1 where w: "walk P C ?full (dep + 1) (entryCount + 1) = (kids, c1)"
          by (cases "walk P C ?full (dep + 1) (entryCount + 1)")
        from "3.IH"(2)[OF False refl refl refl ign True cons] w
        have k: "\<forall>g\<in>set (sibling_groups kids). sorted_wrt (ordered_by (localeCompare P)) g" by simp
        with accs have "\<forall>g\<in>set (subgroups (nodes @ [TreeNode (dname entry) ?full (isDirectory entry) (Some kids) None])).
               sorted_wrt (ordered_by (localeCompare P)) g"
          by (auto simp: subgroups_append sibling_groups_def)
        from "3.IH"(3)[OF False refl refl refl ign True w[symmetric] cons this]
        show ?thesis using False ign True w
          by (simp add: walk_loop.simps Let_def)
      next
        case isfile: False
        from accs have "\<forall>g\<in>set (subgroups (nodes @ [TreeNode (dname entry) ?full (isDirectory entry) None None])).
               sorted_wrt (ordered_by (localeCompare P)) g"
          by (auto simp: subgroups_append)
        from "3.IH"(4)[OF False refl refl refl ign isfile cons this]
        show ?thesis using False ign isfile
          by (simp add: walk_loop.simps Let_def)
      qed
    qed
  qed
qed

declare bucketToNodes.simps [simp del]

lemma subgroups_Cons:
  "subgroups (n # rest) =
     (case children n of None \<Rightarrow> [] | Some kids \<Rightarrow> sibling_groups kids) @ subgroups rest"
  by (cases n) (simp add: sibling_groups_def split: option.splits)

lemma in_subgroups:
  "g \<in> set (subgroups xs) \<longleftrightarrow>
     (\<exists>n\<in>set xs. \<exists>kids. children n = Some kids \<and> g \<in> set (sibling_groups kids))"
proof (induction xs)
  case Nil
  show ?case by simp
next
  case (Cons n rest)
  show ?case
    unfolding subgroups_Cons using Cons.IH by (cases "children n") auto
qed

lemma file_paths_Cons:
  "file_paths (n # rest) =
     (if isDir n then [] else [path n]) @
     (case children n of None \<Rightarrow> [] | Some kids \<Rightarrow> file_paths kids) @ file_paths rest"
  by (cases n) simp

lemma in_file_paths:
  "p \<in> set (file_paths xs) \<longleftrightarrow>
     (\<exists>n\<in>set xs. (\<not> isDir n \<and> p = path n) \<or>
        (\<exists>kids. children n = Some kids \<and> p \<in> set (file_paths kids)))"
proof (induction xs)
  case Nil
  show ?case by simp
next
  case (Cons n rest)
  show ?case
    unfolding file_paths_Cons using Cons.IH by (cases "children n") auto
qed

lemma bucketToNodes_sorted:
  "consistent_cmp (localeCompare P) \<Longrightarrow>
     \<forall>g\<in>set (sibling_groups (bucketToNodes P root b pp)). sorted_wrt (ordered_by (localeCompare P)) g"
proof (induction P root b pp rule: bucketToNodes.induct)
  case (1 P root fs sd parentPath)
  let ?full = "\<lambda>dirName. if parentPath \<noteq> [] then parentPath @ ''/'' @ dirName else dirName"
  let ?dirs = "map (\<lambda>(dirName, subBucket).
               TreeNode dirName (pathJoin P root (?full dirName)) True
                    (Some (bucketToNodes P root subBucket (?full dirName))) None) sd"
  let ?files = "map (\<lambda>f. TreeNode (bf_name f) (pathJoin P root (bf_relPath f)) False None
                     (Some (bf_status f))) fs"
  have res: "bucketToNodes P root (DirBucket fs sd) parentPath = js_sort (node_cmp P) (?dirs @ ?files)"
    by (simp add: bucketToNodes.simps Let_def)
  have top: "sorted_wrt (ordered_by (localeCompare P)) (js_sort (node_cmp P) (?dirs @ ?files))"
    using sorted_js_sort[OF consistent_node_cmp[OF "1.prems"], of "?dirs @ ?files"]
    by (simp add: node_cmp_key)
  have sub: "sorted_wrt (ordered_by (localeCompare P)) g"
    if "g \<in> set (subgroups (js_sort (node_cmp P) (?dirs @ ?files)))" for g
  proof -
    from that obtain n kids where n: "n \<in> set (?dirs @ ?files)" "children n = Some kids"
      "g \<in> set (sibling_groups kids)"
      unfolding in_subgroups set_js_sort by blast
    then obtain dirName subBucket where d: "(dirName, subBucket) \<in> set sd"
      "kids = bucketToNodes P root subBucket (?full dirName)"
      by auto
    from "1.IH"[OF d(1) refl refl "1.prems"] n(3) d(2) show ?thesis by simp
  qed
  show ?case unfolding res sibling_groups_def using top sub by simp
qed

subsection \<open>Both build modes sort by the platform collation\<close>

lemma alphabetical_cmp_le:
  "alphabetical_cmp a b \<le> 0 \<longleftrightarrow>
     map fold_case a < map fold_case b \<or>
     (map fold_case a = map fold_case b \<and> map is_upper a \<le> map is_upper b)"
  by (auto simp: alphabetical_cmp_def Let_def)

lemma consistent_alphabetical: "consistent_cmp alphabetical_cmp"
proof -
  have tot: "alphabetical_cmp a b \<le> 0 \<or> alphabetical_cmp b a \<le> 0" for a b
    unfolding alphabetical_cmp_le
    using linorder_less_linear[of "map fold_case a" "map fold_case b"]
      linorder_linear[of "map is_upper a" "map is_upper b"]
    by auto
  have tr: "alphabetical_cmp a c \<le> 0"
    if "alphabetical_cmp a b \<le> 0" "alphabetical_cmp b c \<le> 0" for a b c
  proof -
    from that(1) consider (l1) "map fold_case a < map fold_case b"
      | (e1) "map fold_case a = map fold_case b" "map is_upper a \<le> map is_upper b"
      unfolding alphabetical_cmp_le by blast
    then show ?thesis
    proof cases
      case l1
      from that(2) have "map fold_case b \<le> map fold_case c"
        unfolding alphabetical_cmp_le by auto
      with l1 have "map fold_case a < map fold_case c" by (rule less_le_trans)
      then show ?thesis unfolding alphabetical_cmp_le by simp
    next
      case e1
      from that(2) consider (l2) "map fold_case b < map fold_case c"
        | (e2) "map fold_case b = map fold_case c" "map is_upper b \<le> map is_upper c"
        unfolding alphabetical_cmp_le by blast
      then show ?thesis
      proof cases
        case l2
        with e1 show ?thesis unfolding alphabetical_cmp_le by simp
      next
        case e2
        from e1(2) e2(2) have "map is_upper a \<le> map is_upper c" by (rule order_trans)
        with e1 e2 show ?thesis unfolding alphabetical_cmp_le by simp
      qed
    qed
  qed
  from tot tr show ?thesis unfolding consistent_cmp_def by blast
qed

lemma case_platform_tree:
  "buildGitTree case_platform ''/r'' =
     [TreeNode ''a'' ''/r/a'' False None (Some GitUntracked),
      TreeNode ''B'' ''/r/B'' False None (Some GitUntracked)]"
  by code_simp

text \<open>
  C3 as stated, that siblings of one kind stand in byte order of their names, fails on a platform
  whose collation is alphabetical: the untracked files \<open>B\<close> and \<open>a\<close> come out as \<open>a\<close>, \<open>B\<close>.
\<close>

theorem sibling_order_counterexample:
  "\<not> sorted_wrt (ordered_by codepoint_cmp) (buildGitTree case_platform ''/r'')"
  unfolding case_platform_tree
  by (simp add: ordered_by_def codepoint_cmp_def)

text \<open>
  C3 (amended). In every forest produced by \<open>walkTree\<close> or \<open>buildGitTree\<close>, within every
  sibling group all directories precede all files, and nodes of the same kind are ordered by
  \<open>localeCompare\<close> of their names, the collation of the platform, provided it is a
  comparator \<open>sort\<close> can sort by.
\<close>

theorem sibling_order:
  "consistent_cmp (localeCompare P) \<Longrightarrow>
     (\<forall>g\<in>set (sibling_groups (walkTree P root options)).
         sorted_wrt (ordered_by (localeCompare P)) g) \<and>
     (\<forall>g\<in>set (sibling_groups (buildGitTree P root)).
         sorted_wrt (ordered_by (localeCompare P)) g)"
proof (intro conjI)
  assume c: "consistent_cmp (localeCompare P)"
  show "\<forall>g\<in>set (sibling_groups (walkTree P root options)).
         sorted_wrt (ordered_by (localeCompare P)) g"
    unfolding walkTree_def Let_def by (rule walk_groups_sorted(1)[OF c])
  show "\<forall>g\<in>set (sibling_groups (buildGitTree P root)).
         sorted_wrt (ordered_by (localeCompare P)) g"
    using bucketToNodes_sorted[OF c]
    by (simp add: buildGitTree_def Let_def sibling_groups_def)
qed

text \<open>C3 (amended) on the repository with the untracked files \<open>B\<close> and \<open>a\<close>.\<close>

theorem sibling_order_witness:
  "consistent_cmp (localeCompare case_platform) \<and>
   sorted_wrt (ordered_by (localeCompare case_platform)) (buildGitTree case_platform ''/r'')"
proof -
  have c: "consistent_cmp (localeCompare case_platform)"
    by (simp add: case_platform_def base_platform_def consistent_alphabetical)
  from sibling_order[OF c, of "''/r''"] show ?thesis
    using c by (simp add: sibling_groups_def)
qed


section \<open>Properties of \<open>buildGitTree\<close>\<close>

lemma update_union:
  assumes "\<And>old. map_of sd k = Some old \<Longrightarrow> G old \<subseteq> G v"
  shows "(\<Union>kb\<in>set (AList.update k v sd). G (snd kb)) = G v \<union> (\<Union>kb\<in>set sd. G (snd kb))"
  using assms
proof (induction sd)
  case Nil
  show ?case by simp
next
  case (Cons a sd)
  show ?case
  proof (cases "fst a = k")
    case True
    with Cons.prems[of "snd a"] show ?thesis by (cases a) auto
  next
    case False
    with Cons.prems have "\<And>old. map_of sd k = Some old \<Longrightarrow> G old \<subseteq> G v" by (cases a) auto
    from Cons.IH[OF this] False show ?thesis by (cases a) auto
  qed
qed

lemma set_bucket_files:
  "set (bucket_files (DirBucket fs sd)) = set fs \<union> (\<Union>kb\<in>set sd. set (bucket_files (snd kb)))"
  by auto

lemma map_of_bucket_files:
  "map_of sd k = Some old \<Longrightarrow> set (bucket_files old) \<subseteq> (\<Union>kb\<in>set sd. set (bucket_files (snd kb)))"
  by (auto dest!: map_of_SomeD)

lemma bucket_files_insert:
  "set (bucket_files (bucket_insert segs f b)) = insert f (set (bucket_files b))"
proof (induction segs arbitrary: b)
  case Nil
  show ?case by (cases b) simp
next
  case (Cons seg segs)
  obtain fs sd where b: "b = DirBucket fs sd" by (cases b)
  let ?old = "case map_of sd seg of None \<Rightarrow> empty_bucket | Some sub \<Rightarrow> sub"
  let ?new = "bucket_insert segs f ?old"
  let ?G = "\<lambda>x. set (bucket_files x)"
  have new: "?G ?new = insert f (?G ?old)" by (rule Cons.IH)
  have old: "?G ?old \<subseteq> (\<Union>kb\<in>set sd. ?G (snd kb))"
    using map_of_bucket_files[of sd seg] by (auto simp: empty_bucket_def split: option.splits)
  have "(\<Union>kb\<in>set (AList.update seg ?new sd). ?G (snd kb)) = ?G ?new \<union> (\<Union>kb\<in>set sd. ?G (snd kb))"
    by (rule update_union) (auto simp: Cons.IH)
  with new old have "(\<Union>kb\<in>set (AList.update seg ?new sd). ?G (snd kb)) = insert f (\<Union>kb\<in>set sd. ?G (snd kb))"
    by auto
  then show ?case
    unfolding b bucket_insert.simps set_bucket_files by auto
qed

lemma fill_buckets_files:
  "bf_relPath ` set (bucket_files (fill_buckets changes b)) =
     bf_relPath ` set (bucket_files b) \<union>
     {relPath c | c. c \<in> set changes \<and> hd (split_on (CHR ''/'') (relPath c)) \<notin> set DEFAULT_IGNORE}"
proof (induction changes arbitrary: b)
  case Nil
  show ?case by simp
next
  case (Cons ch changes)
  show ?case
  proof (cases "hd (split_on (CHR ''/'') (relPath ch)) \<in> set DEFAULT_IGNORE")
    case True
    then show ?thesis using Cons.IH[of b] by (auto simp: Let_def)
  next
    case False
    then show ?thesis
      unfolding fill_buckets.simps Let_def
      by (simp add: Cons.IH bucket_files_insert) blast
  qed
qed

lemma bucketToNodes_files:
  "set (file_paths (bucketToNodes P root b pp)) = pathJoin P root ` bf_relPath ` set (bucket_files b)"
proof (induction P root b pp rule: bucketToNodes.induct)
  case (1 P root fs sd parentPath)
  let ?full = "\<lambda>dirName. if parentPath \<noteq> [] then parentPath @ ''/'' @ dirName else dirName"
  let ?dir = "\<lambda>kb. TreeNode (fst kb) (pathJoin P root (?full (fst kb))) True
                    (Some (bucketToNodes P root (snd kb) (?full (fst kb)))) None"
  let ?file = "\<lambda>f. TreeNode (bf_name f) (pathJoin P root (bf_relPath f)) False None
                     (Some (bf_status f))"
  have res: "bucketToNodes P root (DirBucket fs sd) parentPath =
               js_sort (node_cmp P) (map ?dir sd @ map ?file fs)"
    by (simp add: bucketToNodes.simps Let_def case_prod_unfold)
  have ih: "set (file_paths (bucketToNodes P root (snd kb) (?full (fst kb)))) =
              pathJoin P root ` bf_relPath ` set (bucket_files (snd kb))"
    if "kb \<in> set sd" for kb
    using "1.IH"[OF that, of "fst kb" "snd kb"] by simp
  have mem: "p \<in> set (file_paths (bucketToNodes P root (DirBucket fs sd) parentPath)) \<longleftrightarrow>
          (\<exists>f\<in>set fs. p = pathJoin P root (bf_relPath f)) \<or>
          (\<exists>kb\<in>set sd. p \<in> set (file_paths (bucketToNodes P root (snd kb) (?full (fst kb)))))" for p
  proof -
    have "p \<in> set (file_paths (bucketToNodes P root (DirBucket fs sd) parentPath)) \<longleftrightarrow>
          (\<exists>n\<in>?file ` set fs \<union> ?dir ` set sd. (\<not> isDir n \<and> p = path n) \<or>
              (\<exists>kids. children n = Some kids \<and> p \<in> set (file_paths kids)))"
      unfolding res by (subst in_file_paths) (simp add: set_js_sort Un_commute)
    also have "\<dots> \<longleftrightarrow> (\<exists>n\<in>?file ` set fs. (\<not> isDir n \<and> p = path n) \<or>
              (\<exists>kids. children n = Some kids \<and> p \<in> set (file_paths kids))) \<or>
         (\<exists>n\<in>?dir ` set sd. (\<not> isDir n \<and> p = path n) \<or>
              (\<exists>kids. children n = Some kids \<and> p \<in> set (file_paths kids)))"
      by (rule bex_Un)
    also have "(\<exists>n\<in>?file ` set fs. (\<not> isDir n \<and> p = path n) \<or>
              (\<exists>kids. children n = Some kids \<and> p \<in> set (file_paths kids))) \<longleftrightarrow>
          (\<exists>f\<in>set fs. p = pathJoin P root (bf_relPath f))"
      by simp
    also have "(\<exists>n\<in>?dir ` set sd. (\<not> isDir n \<and> p = path n) \<or>
              (\<exists>kids. children n = Some kids \<and> p \<in> set (file_paths kids))) \<longleftrightarrow>
          (\<exists>kb\<in>set sd. p \<in> set (file_paths (bucketToNodes P root (snd kb) (?full (fst kb)))))"
      by simp
    finally show ?thesis .
  qed
  have "p \<in> set (file_paths (bucketToNodes P root (DirBucket fs sd) parentPath)) \<longleftrightarrow>
        p \<in> pathJoin P root ` bf_relPath ` set (bucket_files (DirBucket fs sd))" for p
  proof -
    have "(\<exists>kb\<in>set sd. p \<in> set (file_paths (bucketToNodes P root (snd kb) (?full (fst kb))))) \<longleftrightarrow>
          (\<exists>kb\<in>set sd. p \<in> pathJoin P root ` bf_relPath ` set (bucket_files (snd kb)))"
      using ih by blast
    then show ?thesis
      unfolding mem set_bucket_files image_Un image_UN by blast
  qed
  then show ?case by blast
qed

text \<open>
  C10. In git-diff mode only the first path segment of a changed path is checked against the
  default ignore set: the files of the forest are exactly the changed paths whose first
  segment is not in the set, whatever their deeper segments are.
\<close>

theorem buildGitTree_top_segment:
  "set (file_paths (buildGitTree P root)) =
     pathJoin P root `
       {relPath c | c. c \<in> set (getGitChanges P root) \<and>
                       hd (split_on (CHR ''/'') (relPath c)) \<notin> set DEFAULT_IGNORE}"
proof (cases "getGitChanges P root = []")
  case True
  then show ?thesis by (simp add: buildGitTree_def)
next
  case False
  then have "buildGitTree P root =
      bucketToNodes P root (fill_buckets (getGitChanges P root) empty_bucket) ''''"
    by (simp add: buildGitTree_def Let_def)
  then have "set (file_paths (buildGitTree P root)) =
      pathJoin P root ` bf_relPath ` set (bucket_files (fill_buckets (getGitChanges P root) empty_bucket))"
    by (simp only: bucketToNodes_files)
  also have "bf_relPath ` set (bucket_files (fill_buckets (getGitChanges P root) empty_bucket)) =
      bf_relPath ` set (bucket_files empty_bucket) \<union>
      {relPath c | c. c \<in> set (getGitChanges P root) \<and>
                       hd (split_on (CHR ''/'') (relPath c)) \<notin> set DEFAULT_IGNORE}"
    by (rule fill_buckets_files)
  also have "bf_relPath ` set (bucket_files empty_bucket) = {}"
    by (simp add: empty_bucket_def)
  finally show ?thesis by (simp only: Un_empty_left)
qed

text \<open>
  So \<open>node_modules/x\<close> is dropped and \<open>pkg/node_modules/x\<close> is kept.
\<close>

lemma modules_platform_tree:
  "buildGitTree modules_platform ''/r'' =
     [TreeNode ''pkg'' ''/r/pkg'' True (Some
        [TreeNode ''node_modules'' ''/r/pkg/node_modules'' True (Some
           [TreeNode ''x'' ''/r/pkg/node_modules/x'' False None (Some GitUntracked)]) None]) None]"
  by code_simp


section \<open>Properties of the ignore rules\<close>

lemma ignore_loop_iff:
  "ignore_loop P testPath nm isD globs \<longleftrightarrow>
     (\<exists>p\<in>set globs. globMatch P p testPath \<or> globMatch P p nm \<or> (isD \<and> globMatch P p (nm @ ''/'')))"
  by (induction globs) auto

lemma parseGitignore_content:
  assumes "existsSync P (pathJoin P root ''.gitignore'')"
    and "readFileSync P (pathJoin P root ''.gitignore'') = Some content"
  shows "parseGitignore P root =
           filter (\<lambda>line. line \<noteq> [] \<and> \<not> startsWith line ''#'')
             (map js_trim (split_on newline content))"
  using assms by (simp add: parseGitignore_def Let_def)

lemma negated_line_kept:
  assumes "startsWith l ''!''"
  shows "l \<noteq> [] \<and> \<not> startsWith l ''#''"
  using assms by (cases l) (auto simp: startsWith_def)

lemma shouldIgnore_char:
  "shouldIgnore P nm rel isD static pats \<longleftrightarrow>
      nm \<in> set static \<or>
      (\<exists>p\<in>set pats. globMatch P p (if isD then rel @ ''/'' else rel)) \<or>
      (\<exists>p\<in>set pats. globMatch P p nm) \<or>
      (isD \<and> (\<exists>p\<in>set pats. globMatch P p (nm @ ''/'')))"
  unfolding shouldIgnore_def Let_def ignore_loop_iff by auto

lemma gitignore_platform_patterns:
  "parseGitignore gitignore_platform ''/r'' = [''!keep'', ''build'']"
  by code_simp

text \<open>
  C4 as stated fails twice. A pattern matching the relative path does not make \<open>shouldIgnore\<close>
  true for a directory: the pattern \<open>a/b\<close> matches the relative path \<open>a/b\<close>, but the directory
  is tested as \<open>a/b/\<close>, \<open>b\<close> and \<open>b/\<close>, and none of them matches. And a negated line is not
  without negation semantics: with the ignore file of \<open>!keep\<close> and \<open>build\<close>, the file \<open>foo\<close>,
  which equals neither pattern, is ignored, because the matcher negates the line \<open>!keep\<close>.
\<close>

theorem shouldIgnore_counterexample:
  "globMatch base_platform ''a/b'' ''a/b'' \<and>
   \<not> shouldIgnore base_platform ''b'' ''a/b'' True DEFAULT_IGNORE [''a/b''] \<and>
   shouldIgnore gitignore_platform ''foo'' ''foo'' False DEFAULT_IGNORE
     (parseGitignore gitignore_platform ''/r'')"
  unfolding gitignore_platform_patterns
  by (simp add: shouldIgnore_def base_platform_def gitignore_platform_def DEFAULT_IGNORE_def)

text \<open>
  C4 (amended). \<open>shouldIgnore\<close> is true exactly when the name is in the static set, or some
  pattern matches the test path (the relative path of a file, the relative path with a
  trailing separator of a directory), or some pattern matches the bare name, or, for a
  directory, some pattern matches the name with a trailing separator. A negated line gets no
  treatment of its own: \<open>parseGitignore\<close> keeps a line that starts with the negation mark as it
  is written, \<open>shouldIgnore\<close> hands every pattern to the matcher in the same way, and more
  patterns never turn an ignored path into a kept one; what a negated line matches is what
  the matcher makes of it.
\<close>

theorem shouldIgnore_iff:
  "(shouldIgnore P nm rel isD static pats \<longleftrightarrow>
      nm \<in> set static \<or>
      (\<exists>p\<in>set pats. globMatch P p (if isD then rel @ ''/'' else rel)) \<or>
      (\<exists>p\<in>set pats. globMatch P p nm) \<or>
      (isD \<and> (\<exists>p\<in>set pats. globMatch P p (nm @ ''/'')))) \<and>
   (set pats \<subseteq> set pats' \<and> shouldIgnore P nm rel isD static pats
    \<longrightarrow> shouldIgnore P nm rel isD static pats') \<and>
   (existsSync P (pathJoin P root ''.gitignore'') \<and>
    readFileSync P (pathJoin P root ''.gitignore'') = Some content \<and>
    line \<in> set (split_on newline content) \<and> startsWith (js_trim line) ''!''
    \<longrightarrow> js_trim line \<in> set (parseGitignore P root))"
proof (intro conjI impI)
  show "shouldIgnore P nm rel isD static pats \<longleftrightarrow>
      nm \<in> set static \<or>
      (\<exists>p\<in>set pats. globMatch P p (if isD then rel @ ''/'' else rel)) \<or>
      (\<exists>p\<in>set pats. globMatch P p nm) \<or>
      (isD \<and> (\<exists>p\<in>set pats. globMatch P p (nm @ ''/'')))"
    by (rule shouldIgnore_char)
next
  assume "set pats \<subseteq> set pats' \<and> shouldIgnore P nm rel isD static pats"
  then show "shouldIgnore P nm rel isD static pats'"
    unfolding shouldIgnore_char by blast
next
  assume a: "existsSync P (pathJoin P root ''.gitignore'') \<and>
    readFileSync P (pathJoin P root ''.gitignore'') = Some content \<and>
    line \<in> set (split_on newline content) \<and> startsWith (js_trim line) ''!''"
  then have "parseGitignore P root =
           filter (\<lambda>line. line \<noteq> [] \<and> \<not> startsWith line ''#'')
             (map js_trim (split_on newline content))"
    by (intro parseGitignore_content) simp_all
  with a negated_line_kept[of "js_trim line"] show "js_trim line \<in> set (parseGitignore P root)"
    by auto
qed

text \<open>\<open>trim\<close> also strips white space beyond ASCII, here U+00A0 and U+3000.\<close>

lemma js_trim_unicode:
  "js_trim ([CHR 0xC2, CHR 0xA0] @ ''!keep'' @ [CHR 0x20, CHR 0xE3, CHR 0x80, CHR 0x80]) = ''!keep''"
  by code_simp

lemma gitignore_platform_lines:
  "split_on newline (''!keep'' @ [newline] @ ''build'' @ [newline]) = [''!keep'', ''build'', '''']"
  by (simp add: newline_def)

lemma js_trim_keep: "js_trim ''!keep'' = ''!keep''"
  by code_simp

text \<open>
  C4 (amended) on the ignore file of \<open>!keep\<close> and \<open>build\<close>, with the matcher that negates: the
  line \<open>!keep\<close> is kept as a pattern, the file \<open>foo\<close> is ignored by it, also among the other
  patterns, and the file \<open>keep\<close> is not ignored.
\<close>

theorem shouldIgnore_iff_witness:
  "''!keep'' \<in> set (parseGitignore gitignore_platform ''/r'') \<and>
   shouldIgnore gitignore_platform ''foo'' ''foo'' False DEFAULT_IGNORE
     (parseGitignore gitignore_platform ''/r'') \<and>
   \<not> shouldIgnore gitignore_platform ''keep'' ''keep'' False DEFAULT_IGNORE
     (parseGitignore gitignore_platform ''/r'')"
proof -
  have e: "existsSync gitignore_platform (pathJoin gitignore_platform ''/r'' ''.gitignore'')"
    by (simp add: gitignore_platform_def base_platform_def)
  have r: "readFileSync gitignore_platform (pathJoin gitignore_platform ''/r'' ''.gitignore'')
             = Some (''!keep'' @ [newline] @ ''build'' @ [newline])"
    by (simp add: gitignore_platform_def base_platform_def)
  have l: "''!keep'' \<in> set (split_on newline (''!keep'' @ [newline] @ ''build'' @ [newline]))"
    unfolding gitignore_platform_lines by simp
  have s: "startsWith (js_trim ''!keep'') ''!''"
    unfolding js_trim_keep by (simp add: startsWith_def)
  have g: "globMatch gitignore_platform ''!keep'' ''foo''"
    "\<not> globMatch gitignore_platform ''!keep'' ''keep''"
    "\<not> globMatch gitignore_platform ''build'' ''keep''"
    by (simp_all add: gitignore_platform_def base_platform_def)
  note t1 = shouldIgnore_iff[of gitignore_platform "''foo''" "''foo''" False DEFAULT_IGNORE
      "[''!keep'']" "parseGitignore gitignore_platform ''/r''" "''/r''"
      "''!keep'' @ [newline] @ ''build'' @ [newline]" "''!keep''"]
  from t1 e r l s have k: "''!keep'' \<in> set (parseGitignore gitignore_platform ''/r'')"
    unfolding js_trim_keep by blast
  from t1 g(1) have f1: "shouldIgnore gitignore_platform ''foo'' ''foo'' False DEFAULT_IGNORE [''!keep'']"
    by simp
  from k have sub: "set [''!keep''] \<subseteq> set (parseGitignore gitignore_platform ''/r'')" by simp
  from t1 sub f1 have f: "shouldIgnore gitignore_platform ''foo'' ''foo'' False DEFAULT_IGNORE
     (parseGitignore gitignore_platform ''/r'')"
    by blast
  note t2 = shouldIgnore_iff[of gitignore_platform "''keep''" "''keep''" False DEFAULT_IGNORE
      "[''!keep'', ''build'']" "[''!keep'', ''build'']" "''/r''"
      "''!keep'' @ [newline] @ ''build'' @ [newline]" "''!keep''"]
  from t2 g(2,3) have "\<not> shouldIgnore gitignore_platform ''keep'' ''keep'' False DEFAULT_IGNORE
     [''!keep'', ''build'']"
    by (simp add: DEFAULT_IGNORE_def)
  then have n: "\<not> shouldIgnore gitignore_platform ''keep'' ''keep'' False DEFAULT_IGNORE
     (parseGitignore gitignore_platform ''/r'')"
    unfolding gitignore_platform_patterns .
  from k f n show ?thesis by simp
qed


section \<open>Properties of the control channel\<close>

lemma js_trim_Nil: "js_trim [] = []"
  by code_simp

text \<open>
  C5. The specification states that the server buffers until a full line is available, so that a message
  split over two reads is delivered once. The handler keeps no buffer: each fragment is
  parsed on its own, fails and is dropped, and \<open>onMessage\<close> is never called, whereas the same
  bytes in one read deliver the message.
\<close>

theorem server_fragment_dropped:
  \<open>server_reads parse_controller [''{"type":'', ''"ping"}'' @ [newline]] = [] \<and>
   server_reads parse_controller [''{"type":"ping"}'' @ [newline]] = [Ping]\<close>
  by code_simp

lemma server_data_whole_line:
  assumes "newline \<notin> set line" "js_trim line \<noteq> []" "parse line = Some msg"
  shows "server_data parse (line @ [newline]) = [msg]"
proof -
  have "split_on newline (line @ [newline]) = [line, []]"
    using assms(1) by (induction line) auto
  with assms show ?thesis by (simp add: server_data_def js_trim_Nil)
qed

text \<open>
  C6. The specification states that \<open>sendCommand\<close> resolves to \<open>null\<close> within the timeout on a malformed
  reply. The handler clears the timer before it parses the line, so after a malformed line
  the promise is still pending, the timer is disarmed, and the timeout does not resolve it.
\<close>

theorem sendCommand_malformed_reply:
  \<open>settled (sendCommand parse_browser [OnOpen, OnData (''oops'' @ [newline]), TimerExpires]) = None \<and>
   \<not> timer (sendCommand parse_browser [OnOpen, OnData (''oops'' @ [newline])])\<close>
  by code_simp

text \<open>The other cases settle: a rejected connection, silence until the timeout, a reply.\<close>

lemma sendCommand_examples:
  \<open>settled (sendCommand parse_browser [ConnectRejected]) = Some None\<close>
  \<open>settled (sendCommand parse_browser [OnOpen, TimerExpires]) = Some None\<close>
  \<open>settled (sendCommand parse_browser [OnOpen, OnData (''{"type":"pong"}'' @ [newline]), OnClose])
     = Some (Some Pong)\<close>
  \<open>settled (sendCommand parse_browser [OnOpen, OnData ''{"type":'', OnData (''"pong"}'' @ [newline])])
     = Some (Some Pong)\<close>
  by code_simp+


section \<open>Properties of the pane lifecycle\<close>

text \<open>
  C8. The specification states that after two calls of Close the identity file does not exist. With an
  identity file that exists but is blank, \<open>readPaneId\<close> returns the empty string, \<open>closeBrowser\<close>
  returns before \<open>clearPaneId\<close>, and the file is still there after both calls.
\<close>

theorem closeBrowser_blank_identity:
  "disk (closeBrowser (closeBrowser blank_identity_world))
     (getPaneIdFile (getCurrentPaneId blank_identity_world)) = Some (Regular [])"
  by code_simp

text \<open>
  With an identity file that holds an identifier, Close removes the file whether or not the
  pane is alive, and a second Close changes nothing.
\<close>

lemma closeBrowser_clears:
  assumes "disk w (getPaneIdFile (getCurrentPaneId w)) = Some (Regular content)"
    and "js_trim content \<noteq> []"
  shows "disk (closeBrowser w) (getPaneIdFile (getCurrentPaneId w)) = None"
    and "closeBrowser (closeBrowser w) = closeBrowser w"
proof -
  let ?f = "getPaneIdFile (getCurrentPaneId w)"
  let ?w' = "if paneExists w (js_trim content) then killPane (js_trim content) w else w"
  have c: "closeBrowser w = clearPaneId ?f ?w'"
    using assms by (simp add: closeBrowser_def readPaneId_def Let_def)
  have d: "disk ?w' ?f = Some (Regular content)" using assms(1) by (simp add: killPane_def)
  then show 1: "disk (closeBrowser w) ?f = None"
    unfolding c by (simp add: clearPaneId_def)
  have "getCurrentPaneId (closeBrowser w) = getCurrentPaneId w"
    unfolding c using d by (simp add: clearPaneId_def getCurrentPaneId_def killPane_def)
  with 1 show "closeBrowser (closeBrowser w) = closeBrowser w"
    by (simp add: closeBrowser_def[of "closeBrowser w"] readPaneId_def Let_def)
qed

lemma closeBrowser_active_example:
  "disk (closeBrowser active_world) ''/tmp/file-browser-pane-0'' = None \<and>
   panes (closeBrowser active_world) = {''%0''}"
  by code_simp

lemma clearPaneId_keeps:
  "TMUX (clearPaneId f w) = TMUX w" "stderr (clearPaneId f w) = stderr w"
  by (simp_all add: clearPaneId_def split: option.splits fentry.splits)

text \<open>
  When the multiplexer is not detected, \<open>spawnBrowser\<close> reports the failure once on the error
  stream and returns \<open>null\<close> without creating a pane, and the \<open>toggle\<close> command ends with exit
  code 0 in every world in which the \<open>tmux\<close> executable starts, as all worlds here are;
  unless the identity file names a live pane, which \<open>toggle\<close> closes instead, that one
  report is all the command prints.
\<close>

lemma toggle_without_tmux:
  "\<not> detectTmux w \<Longrightarrow>
     spawnBrowser cwd w = Inr (None, w\<lparr>stderr := stderr w @ [tmux_required]\<rparr>) \<and>
     fst (main_toggle cwd w) = 0 \<and>
     (pane_active w \<or> stderr (snd (main_toggle cwd w)) = stderr w @ [tmux_required])"
proof (intro conjI)
  assume t: "\<not> detectTmux w"
  then show "spawnBrowser cwd w = Inr (None, w\<lparr>stderr := stderr w @ [tmux_required]\<rparr>)"
    by (simp add: spawnBrowser_def)
  let ?f = "getPaneIdFile (getCurrentPaneId w)"
  from t have s: "spawnBrowser cwd (clearPaneId ?f w) =
      Inr (None, (clearPaneId ?f w)\<lparr>stderr := stderr w @ [tmux_required]\<rparr>)"
    by (simp add: spawnBrowser_def detectTmux_def clearPaneId_keeps)
  show "fst (main_toggle cwd w) = 0"
    using s by (simp add: main_toggle_def toggleBrowser_def Let_def)
  show "pane_active w \<or> stderr (snd (main_toggle cwd w)) = stderr w @ [tmux_required]"
    using s by (auto simp: main_toggle_def toggleBrowser_def pane_active_def Let_def)
qed

text \<open>
  C9. The specification states that, when the multiplexer is not detected, the failure is reported once
  and the process exits with a non-zero code. Outside the multiplexer the \<open>toggle\<close> command
  does report the failure once, but \<open>toggleBrowser\<close> drops the \<open>null\<close> that \<open>spawnBrowser\<close>
  returns and the process ends with exit code 0.
\<close>

theorem toggle_outside_exit_code:
  "\<not> detectTmux outside_world \<and>
   spawnBrowser ''/w'' outside_world = Inr (None, outside_world\<lparr>stderr := [tmux_required]\<rparr>) \<and>
   main_toggle ''/w'' outside_world = (0, outside_world\<lparr>stderr := [tmux_required]\<rparr>)"
  by (simp add: main_toggle_def toggleBrowser_def spawnBrowser_def detectTmux_def outside_world_def
        getCurrentPaneId_def getPaneIdFile_def readPaneId_def clearPaneId_def js_trim_def Let_def)

end
